theory Spec2Isabelle
  imports Main "HOL-Library.Word" "HOL-Library.Sublist"
begin

section \<open>JavaScript strings\<close>

text \<open>
  A JavaScript string is a sequence of 16-bit UTF-16 code units. None of the regular
  expressions of \<open>markdownToHtml\<close> carries the \<open>u\<close> flag, so \<open>trim\<close>, \<open>split\<close>,
  \<open>startsWith\<close>, \<open>substring\<close> and the regular expressions all work on code units.
\<close>

type_synonym jschar = "16 word"
type_synonym jsstring = "jschar list"

text \<open>An ASCII literal of the source, as code units.\<close>

definition js :: "string \<Rightarrow> jsstring" where
  "js s = map (\<lambda>c. of_nat (of_char c)) s"

definition NL :: jschar where
  "NL = 0x0A"

definition STAR :: jschar where
  "STAR = 0x2A"

definition DASH :: jschar where
  "DASH = 0x2D"

definition LT :: jschar where
  "LT = 0x3C"

definition GT :: jschar where
  "GT = 0x3E"

text \<open>
  ECMAScript \<open>LineTerminator\<close>: LF, CR, LS, PS. Without the \<open>s\<close> flag the
  regular expression atom \<open>.\<close> matches every code unit but these.
\<close>

definition isLineTerminator :: "jschar \<Rightarrow> bool" where
  "isLineTerminator c = (c = 0x0A \<or> c = 0x0D \<or> c = 0x2028 \<or> c = 0x2029)"

text \<open>
  ECMAScript \<open>WhiteSpace\<close> and \<open>LineTerminator\<close> together: what \<open>String.prototype.trim\<close>
  strips and what the class \<open>\s\<close> matches (TAB, LF, VT, FF, CR, SP, NBSP, U+1680,
  U+2000..U+200A, LS, PS, U+202F, U+205F, U+3000, BOM).
\<close>

definition isWhiteSpace :: "jschar \<Rightarrow> bool" where
  "isWhiteSpace c =
     (c = 0x09 \<or> c = 0x0A \<or> c = 0x0B \<or> c = 0x0C \<or> c = 0x0D \<or> c = 0x20 \<or> c = 0xA0 \<or>
      c = 0x1680 \<or> (0x2000 \<le> c \<and> c \<le> 0x200A) \<or> c = 0x2028 \<or> c = 0x2029 \<or>
      c = 0x202F \<or> c = 0x205F \<or> c = 0x3000 \<or> c = 0xFEFF)"

text \<open>\<open>s.trim()\<close>\<close>

definition trim :: "jsstring \<Rightarrow> jsstring" where
  "trim s = rev (dropWhile isWhiteSpace (rev (dropWhile isWhiteSpace s)))"

text \<open>
  \<open>s.split(sep)\<close> for a separator of one code unit; \<open>cur\<close> is the piece being read.
  The empty string splits into one empty piece.
\<close>

fun splitOn :: "jschar \<Rightarrow> jsstring \<Rightarrow> jsstring \<Rightarrow> jsstring list" where
  "splitOn sep cur [] = [cur]"
| "splitOn sep cur (c # cs) =
     (if c = sep then cur # splitOn sep [] cs else splitOn sep (cur @ [c]) cs)"

definition split :: "jsstring \<Rightarrow> jschar \<Rightarrow> jsstring list" where
  "split s sep = splitOn sep [] s"

text \<open>\<open>s.startsWith(p)\<close> and \<open>s.substring(n)\<close>\<close>

definition startsWith :: "jsstring \<Rightarrow> jsstring \<Rightarrow> bool" where
  "startsWith s p = prefix p s"

definition substring :: "jsstring \<Rightarrow> nat \<Rightarrow> jsstring" where
  "substring s n = drop n s"

text \<open>\<open>a.join('')\<close>\<close>

definition join :: "jsstring list \<Rightarrow> jsstring" where
  "join frs = concat frs"

text \<open>\<open>a[i]\<close>: \<open>undefined\<close> out of range.\<close>

definition at :: "'a list \<Rightarrow> nat \<Rightarrow> 'a option" where
  "at xs i = (if i < length xs then Some (xs ! i) else None)"

section \<open>The regular expressions\<close>

text \<open>
  \<open>X+?close\<close> at the head of the input, for a character class \<open>X\<close> and a literal
  \<open>close\<close> that ends the expression: the lazy quantifier takes one code unit of the
  class, tries \<open>close\<close>, and takes one more code unit each time \<open>close\<close> fails. The
  result is the capture and the input left after \<open>close\<close>.
\<close>

fun stripPrefix :: "jsstring \<Rightarrow> jsstring \<Rightarrow> jsstring option" where
  "stripPrefix [] s = Some s"
| "stripPrefix (p # ps) [] = None"
| "stripPrefix (p # ps) (c # cs) = (if p = c then stripPrefix ps cs else None)"

fun lazyPlus :: "(jschar \<Rightarrow> bool) \<Rightarrow> jsstring \<Rightarrow> jsstring \<Rightarrow> (jsstring \<times> jsstring) option" where
  "lazyPlus X close [] = None"
| "lazyPlus X close (c # cs) =
     (if X c then
        (case stripPrefix close cs of
           Some rest \<Rightarrow> Some ([c], rest)
         | None \<Rightarrow>
            (case lazyPlus X close cs of
               Some (cap, rest) \<Rightarrow> Some (c # cap, rest)
             | None \<Rightarrow> None))
      else None)"

text \<open>
  The three inline expressions of the source:
  \<^item> \<open>RxBold\<close> is \<open>/\*\*(.+?)\*\*/g\<close> (list items and paragraphs),
  \<^item> \<open>RxItalicDot\<close> is \<open>/\*(.+?)\*/g\<close> (list items),
  \<^item> \<open>RxItalicNoStar\<close> is \<open>/\*([^*]+?)\*/g\<close> (paragraphs).
\<close>

datatype inlineRx = RxBold | RxItalicDot | RxItalicNoStar

definition rxOpen :: "inlineRx \<Rightarrow> jsstring" where
  "rxOpen r = (case r of RxBold \<Rightarrow> [STAR, STAR] | RxItalicDot \<Rightarrow> [STAR] | RxItalicNoStar \<Rightarrow> [STAR])"

definition rxClass :: "inlineRx \<Rightarrow> jschar \<Rightarrow> bool" where
  "rxClass r c = (case r of
      RxBold \<Rightarrow> \<not> isLineTerminator c
    | RxItalicDot \<Rightarrow> \<not> isLineTerminator c
    | RxItalicNoStar \<Rightarrow> c \<noteq> STAR)"

definition rxClose :: "inlineRx \<Rightarrow> jsstring" where
  "rxClose r = (case r of RxBold \<Rightarrow> [STAR, STAR] | RxItalicDot \<Rightarrow> [STAR] | RxItalicNoStar \<Rightarrow> [STAR])"

text \<open>One match attempt at the head of the input: capture group 1 and the input after the match.\<close>

definition rxMatchAt :: "inlineRx \<Rightarrow> jsstring \<Rightarrow> (jsstring \<times> jsstring) option" where
  "rxMatchAt r s =
     (case stripPrefix (rxOpen r) s of
        None \<Rightarrow> None
      | Some s' \<Rightarrow> lazyPlus (rxClass r) (rxClose r) s')"

text \<open>
  \<open>s.replace(rx, tagOpen + '$1' + tagClose)\<close> for a global expression: the leftmost match
  from the current position is replaced, the scan goes on after the match, and a code
  unit at which no match starts is copied.
\<close>

function replaceAll :: "inlineRx \<Rightarrow> jsstring \<Rightarrow> jsstring \<Rightarrow> jsstring \<Rightarrow> jsstring" where
  "replaceAll r tagOpen tagClose [] = []"
| "replaceAll r tagOpen tagClose (c # cs) =
     (case rxMatchAt r (c # cs) of
        Some (cap, rest) \<Rightarrow> tagOpen @ cap @ tagClose @ replaceAll r tagOpen tagClose rest
      | None \<Rightarrow> c # replaceAll r tagOpen tagClose cs)"
  by pat_completeness auto
termination
proof (relation "measure (\<lambda>(r, tagOpen, tagClose, s). length s)")
  show "wf (measure (\<lambda>(r, tagOpen, tagClose, s). length s))"
    by simp
next
  fix r :: inlineRx and tagOpen tagClose cs cap rest :: jsstring and c :: jschar and m
  assume m: "rxMatchAt r (c # cs) = Some m" and mc: "(cap, rest) = m"
  have strip: "length t + length p = length s" if "stripPrefix p s = Some t" for p s t
    using that by (induction p s rule: stripPrefix.induct) (auto split: if_splits)
  have lazy: "length t < length s" if "lazyPlus X cl s = Some (x, t)" for X cl s x t
    using that
  proof (induction s arbitrary: x t)
    case Nil
    then show ?case by simp
  next
    case (Cons d ds)
    then show ?case
      by (fastforce split: if_splits option.splits dest: strip)
  qed
  from m mc have "length rest < length (c # cs)"
    unfolding rxMatchAt_def
    by (fastforce split: option.splits dest: strip lazy)
  then show "((r, tagOpen, tagClose, rest), (r, tagOpen, tagClose, c # cs))
      \<in> measure (\<lambda>(r, tagOpen, tagClose, s). length s)"
    by simp
next
  fix r :: inlineRx and tagOpen tagClose cs :: jsstring and c :: jschar
  show "((r, tagOpen, tagClose, cs), (r, tagOpen, tagClose, c # cs))
      \<in> measure (\<lambda>(r, tagOpen, tagClose, s). length s)"
    by simp
qed

text \<open>
  \<open>trimmed.match(/^[-*]\s+(.+)$/)\<close>. The greedy \<open>\s+\<close> takes white space as long as it
  can and gives it back one code unit at a time while \<open>(.+)$\<close> fails; \<open>(.+)$\<close> needs
  the whole rest of the input, non-empty and free of line terminators. The result is
  the match array: the matched text, then capture group 1.
\<close>

definition dotPlusEnd :: "jsstring \<Rightarrow> jsstring option" where
  "dotPlusEnd s = (if s \<noteq> [] \<and> list_all (\<lambda>c. \<not> isLineTerminator c) s then Some s else None)"

fun wsPlusThen :: "jsstring \<Rightarrow> jsstring option" where
  "wsPlusThen [] = None"
| "wsPlusThen (c # cs) =
     (if isWhiteSpace c then
        (case wsPlusThen cs of Some cap \<Rightarrow> Some cap | None \<Rightarrow> dotPlusEnd cs)
      else None)"

definition matchListItem :: "jsstring \<Rightarrow> jsstring list option" where
  "matchListItem s =
     (case s of
        [] \<Rightarrow> None
      | c # cs \<Rightarrow>
          if c = DASH \<or> c = STAR then
            (case wsPlusThen cs of Some cap \<Rightarrow> Some [s, cap] | None \<Rightarrow> None)
          else None)"

section \<open>markdownToHtml\<close>

datatype error = TypeError

definition ulOpen :: jsstring where
  "ulOpen = js ''<ul class=\"list-disc list-inside space-y-1 my-2 ml-4\">''"

definition ulClose :: jsstring where
  "ulClose = js ''</ul>''"

definition h3 :: "jsstring \<Rightarrow> jsstring" where
  "h3 t = js ''<h3 class=\"text-lg font-semibold mt-4 mb-2\">'' @ t @ js ''</h3>''"

definition h2 :: "jsstring \<Rightarrow> jsstring" where
  "h2 t = js ''<h2 class=\"text-xl font-bold mt-6 mb-3\">'' @ t @ js ''</h2>''"

definition h1 :: "jsstring \<Rightarrow> jsstring" where
  "h1 t = js ''<h1 class=\"text-2xl font-bold mt-8 mb-4\">'' @ t @ js ''</h1>''"

definition li :: "jsstring \<Rightarrow> jsstring" where
  "li t = js ''<li>'' @ t @ js ''</li>''"

definition para :: "jsstring \<Rightarrow> jsstring" where
  "para t = js ''<p class=\"mb-2\">'' @ t @ js ''</p>''"

definition br :: jsstring where
  "br = js ''<br>''"

text \<open>The two inline passes of a list item (lines 57 to 59 of Workbench.tsx).\<close>

definition inlineListItem :: "jsstring \<Rightarrow> jsstring" where
  "inlineListItem t =
     replaceAll RxItalicDot (js ''<em>'') (js ''</em>'')
       (replaceAll RxBold (js ''<strong>'') (js ''</strong>'') t)"

text \<open>The two inline passes of a paragraph (lines 71 to 76).\<close>

definition inlineParagraph :: "jsstring \<Rightarrow> jsstring" where
  "inlineParagraph t =
     replaceAll RxItalicNoStar (js ''<em>'') (js ''</em>'')
       (replaceAll RxBold (js ''<strong>'') (js ''</strong>'') t)"

text \<open>\<open>if (inList) { result.push('</ul>'); inList = false; }\<close>, the array afterwards.\<close>

definition closeList :: "bool \<Rightarrow> jsstring list \<Rightarrow> jsstring list" where
  "closeList inList result = (if inList then result @ [ulClose] else result)"

text \<open>
  One iteration of the \<open>for\<close> loop at index \<open>i\<close>, on the state \<open>(inList, result)\<close>.
  \<open>lines[i]\<close> and \<open>listMatch[1]\<close> are \<open>undefined\<close> when the index is out of range, and
  a method call on \<open>undefined\<close> throws a \<open>TypeError\<close>.
\<close>

definition iteration ::
  "jsstring list \<Rightarrow> nat \<Rightarrow> bool \<times> jsstring list \<Rightarrow> error + (bool \<times> jsstring list)" where
  "iteration lines i st =
     (case st of (inList, result) \<Rightarrow>
      (case at lines i of
         None \<Rightarrow> Inl TypeError
       | Some line \<Rightarrow>
          (let trimmed = trim line in
           if startsWith trimmed (js ''### '') then
             Inr (False, closeList inList result @ [h3 (substring trimmed 4)])
           else if startsWith trimmed (js ''## '') then
             Inr (False, closeList inList result @ [h2 (substring trimmed 3)])
           else if startsWith trimmed (js ''# '') then
             Inr (False, closeList inList result @ [h1 (substring trimmed 2)])
           else
             (case matchListItem trimmed of
                Some listMatch \<Rightarrow>
                  (case at listMatch 1 of
                     None \<Rightarrow> Inl TypeError
                   | Some listItem \<Rightarrow>
                       Inr (True,
                            (if \<not> inList then result @ [ulOpen] else result)
                              @ [li (inlineListItem listItem)]))
              | None \<Rightarrow>
                  (if trimmed \<noteq> [] then
                     Inr (False, closeList inList result @ [para (inlineParagraph trimmed)])
                   else if i < length lines - 1 then
                     Inr (False, closeList inList result @ [br])
                   else
                     Inr (False, closeList inList result))))))"

text \<open>The \<open>for\<close> loop from index \<open>i\<close> on.\<close>

function loop ::
  "jsstring list \<Rightarrow> nat \<Rightarrow> bool \<times> jsstring list \<Rightarrow> error + (bool \<times> jsstring list)" where
  "loop lines i st =
     (if i < length lines then
        (case iteration lines i st of
           Inl e \<Rightarrow> Inl e
         | Inr st' \<Rightarrow> loop lines (i + 1) st')
      else Inr st)"
  by pat_completeness auto
termination
  by (relation "measure (\<lambda>(lines, i, st). length lines - i)") auto

declare loop.simps [simp del]

text \<open>The array \<open>result\<close> when the \<open>return\<close> statement is reached.\<close>

definition renderFragments :: "jsstring \<Rightarrow> error + jsstring list" where
  "renderFragments markdown =
     (case loop (split markdown NL) 0 (False, []) of
        Inl e \<Rightarrow> Inl e
      | Inr (inList, result) \<Rightarrow> Inr (closeList inList result))"

definition markdownToHtml :: "jsstring \<Rightarrow> error + jsstring" where
  "markdownToHtml markdown =
     (case renderFragments markdown of
        Inl e \<Rightarrow> Inl e
      | Inr result \<Rightarrow> Inr (join result))"

section \<open>Properties of the emitted fragments\<close>

text \<open>
  Every opening list tag among the fragments is directly followed, in the concatenated
  output, by the text \<open><li>\<close>. No other fragment equals the opening list tag, so the
  fragments equal to it are exactly the opening tags the renderer pushed.
\<close>

fun opensFollowedByLi :: "jsstring list \<Rightarrow> bool" where
  "opensFollowedByLi [] = True"
| "opensFollowedByLi (f # fs) =
     ((f = js ''<ul class=\"list-disc list-inside space-y-1 my-2 ml-4\">'' \<longrightarrow>
         prefix (js ''<li>'') (concat fs)) \<and>
      opensFollowedByLi fs)"

text \<open>The number of positions of \<open>s\<close> at which the text \<open>p\<close> starts.\<close>

fun occurrences :: "jsstring \<Rightarrow> jsstring \<Rightarrow> nat" where
  "occurrences p [] = 0"
| "occurrences p (c # cs) = (if prefix p (c # cs) then 1 else 0) + occurrences p cs"

section \<open>The loop, one line at a time\<close>

lemma matchListItem_array:
  "matchListItem s = Some m \<Longrightarrow> \<exists>cap. m = [s, cap]"
  by (auto simp: matchListItem_def split: list.splits if_splits option.splits)

lemma iteration_Inr:
  "i < length lines \<Longrightarrow> \<exists>st'. iteration lines i st = Inr st'"
  by (cases st)
    (auto simp: iteration_def at_def Let_def split: option.splits dest!: matchListItem_array)

lemma loop_Inr: "\<exists>st'. loop lines i st = Inr st'"
proof (induction lines i st rule: loop.induct)
  case (1 lines i st)
  show ?case
  proof (cases "i < length lines")
    case True
    then obtain st' where st': "iteration lines i st = Inr st'"
      using iteration_Inr by blast
    with True "1.IH" [of st'] show ?thesis
      by (simp add: loop.simps [of lines i])
  next
    case False
    then show ?thesis by (simp add: loop.simps [of lines i])
  qed
qed

lemma loop_step:
  "i < length lines \<Longrightarrow> iteration lines i st = Inr st' \<Longrightarrow>
   loop lines i st = loop lines (i + 1) st'"
  by (simp add: loop.simps [of lines i])

lemma loop_done: "length lines \<le> i \<Longrightarrow> loop lines i st = Inr st"
  by (simp add: loop.simps [of lines i])

lemma heading_exclusive:
  "startsWith t (js ''## '') \<Longrightarrow> \<not> startsWith t (js ''### '')"
  "startsWith t (js ''# '') \<Longrightarrow> \<not> startsWith t (js ''### '')"
  "startsWith t (js ''# '') \<Longrightarrow> \<not> startsWith t (js ''## '')"
  by (auto simp: startsWith_def js_def prefix_def)

lemma iteration_h3:
  "i < length lines \<Longrightarrow> startsWith (trim (lines ! i)) (js ''### '') \<Longrightarrow>
   iteration lines i (inList, result) =
     Inr (False, closeList inList result @ [h3 (substring (trim (lines ! i)) 4)])"
  by (simp add: iteration_def at_def)

lemma iteration_h2:
  "i < length lines \<Longrightarrow> startsWith (trim (lines ! i)) (js ''## '') \<Longrightarrow>
   iteration lines i (inList, result) =
     Inr (False, closeList inList result @ [h2 (substring (trim (lines ! i)) 3)])"
  by (simp add: iteration_def at_def heading_exclusive)

lemma iteration_h1:
  "i < length lines \<Longrightarrow> startsWith (trim (lines ! i)) (js ''# '') \<Longrightarrow>
   iteration lines i (inList, result) =
     Inr (False, closeList inList result @ [h1 (substring (trim (lines ! i)) 2)])"
  by (simp add: iteration_def at_def heading_exclusive)

lemma matchListItem_not_heading:
  assumes "matchListItem t = Some m"
  shows "\<not> startsWith t (js ''### '')" "\<not> startsWith t (js ''## '')"
    "\<not> startsWith t (js ''# '')"
  using assms
  by (auto simp: matchListItem_def startsWith_def js_def DASH_def STAR_def prefix_def
      split: list.splits if_splits option.splits)

lemma iteration_listItem:
  "i < length lines \<Longrightarrow> matchListItem (trim (lines ! i)) = Some [whole, listItem] \<Longrightarrow>
   iteration lines i (inList, result) =
     Inr (True, (if \<not> inList then result @ [ulOpen] else result)
                  @ [li (inlineListItem listItem)])"
  by (simp add: iteration_def at_def matchListItem_not_heading)

lemma iteration_paragraph:
  "i < length lines \<Longrightarrow>
   \<not> startsWith (trim (lines ! i)) (js ''### '') \<Longrightarrow>
   \<not> startsWith (trim (lines ! i)) (js ''## '') \<Longrightarrow>
   \<not> startsWith (trim (lines ! i)) (js ''# '') \<Longrightarrow>
   matchListItem (trim (lines ! i)) = None \<Longrightarrow> trim (lines ! i) \<noteq> [] \<Longrightarrow>
   iteration lines i (inList, result) =
     Inr (False, closeList inList result @ [para (inlineParagraph (trim (lines ! i)))])"
  by (simp add: iteration_def at_def)

lemma iteration_blank:
  "i < length lines \<Longrightarrow> trim (lines ! i) = [] \<Longrightarrow>
   iteration lines i (inList, result) =
     Inr (False, closeList inList result @ (if i < length lines - 1 then [br] else []))"
  by (simp add: iteration_def at_def startsWith_def js_def matchListItem_def)

text \<open>
  Fragments are only ever appended, and every index up to the number of lines is reached
  from the initial state: what an iteration pushes is part of the array that is joined.
\<close>

lemma iteration_extends:
  "iteration lines i (inList, result) = Inr (inList', result') \<Longrightarrow> \<exists>fs. result' = result @ fs"
  by (auto simp: iteration_def Let_def closeList_def split: option.splits if_splits)

lemma loop_extends:
  "loop lines i st = Inr st' \<Longrightarrow> \<exists>rest. snd st' = snd st @ rest"
proof (induction lines i st rule: loop.induct)
  case (1 lines i st)
  show ?case
  proof (cases "i < length lines")
    case True
    then obtain st1 where st1: "iteration lines i st = Inr st1"
      using iteration_Inr by blast
    then obtain fs where fs: "snd st1 = snd st @ fs"
      using iteration_extends [of lines i "fst st" "snd st" "fst st1" "snd st1"] by auto
    have "loop lines (i + 1) st1 = Inr st'"
      using "1.prems" True st1 by (simp add: loop.simps [of lines i])
    from "1.IH" [OF True st1 this] obtain rest where "snd st' = snd st1 @ rest" by blast
    with fs show ?thesis by simp
  next
    case False
    with "1.prems" show ?thesis by (simp add: loop.simps [of lines i])
  qed
qed

lemma loop_reach:
  "i \<le> length lines \<Longrightarrow> \<exists>st. loop lines 0 st0 = loop lines i st"
proof (induction i)
  case 0
  then show ?case by blast
next
  case (Suc i)
  then obtain st where st: "loop lines 0 st0 = loop lines i st" by auto
  from Suc.prems have i: "i < length lines" by simp
  then obtain st' where "iteration lines i st = Inr st'"
    using iteration_Inr by blast
  from loop_step [OF i this] st have "loop lines 0 st0 = loop lines (Suc i) st'" by simp
  then show ?case by blast
qed

lemma document_fragments:
  assumes "i \<le> length (split markdown NL)"
    and "\<And>inList result. \<exists>c mid.
      loop (split markdown NL) i (inList, result) = loop (split markdown NL) j (c, result @ mid @ fs)"
  shows "\<exists>pre post. renderFragments markdown = Inr (pre @ fs @ post)"
proof -
  let ?lines = "split markdown NL"
  obtain b res where r: "loop ?lines 0 (False, []) = loop ?lines i (b, res)"
    using loop_reach [OF assms(1)] by (metis surj_pair)
  obtain c mid where s: "loop ?lines i (b, res) = loop ?lines j (c, res @ mid @ fs)"
    using assms(2) by blast
  obtain b' res' where e: "loop ?lines j (c, res @ mid @ fs) = Inr (b', res')"
    using loop_Inr by (metis surj_pair)
  from loop_extends [OF e] obtain rest where rest: "res' = (res @ mid @ fs) @ rest" by auto
  have "renderFragments markdown = Inr (closeList b' res')"
    using r s e by (simp add: renderFragments_def)
  also have "closeList b' res' = (res @ mid) @ fs @ (rest @ (if b' then [ulClose] else []))"
    using rest by (simp add: closeList_def)
  finally show ?thesis by blast
qed

lemma document_push:
  assumes i: "i < length (split markdown NL)"
    and it: "\<And>b r. iteration (split markdown NL) i (b, r) = Inr (c, closeList b r @ fs)"
  shows "\<exists>pre post. renderFragments markdown = Inr (pre @ fs @ post)"
proof (rule document_fragments)
  show "i \<le> length (split markdown NL)" using i by simp
next
  fix b r
  have "loop (split markdown NL) i (b, r) =
      loop (split markdown NL) (i + 1) (c, r @ (if b then [ulClose] else []) @ fs)"
    using loop_step [OF i it, of b r] by (simp add: closeList_def)
  then show "\<exists>c' mid. loop (split markdown NL) i (b, r) =
      loop (split markdown NL) (i + 1) (c', r @ mid @ fs)"
    by blast
qed

section \<open>Totality\<close>

text \<open>
  Claim C2. \<open>markdownToHtml\<close> returns a string for every input string: neither
  \<open>lines[i]\<close> nor \<open>listMatch[1]\<close> is ever \<open>undefined\<close>, so no \<open>TypeError\<close> is thrown,
  and the loop and the three global replacements terminate (the functions of this theory
  are total, their termination is proved where they are defined). The result is a
  function of the input alone.
\<close>

theorem markdownToHtml_total: "\<exists>html. markdownToHtml markdown = Inr html"
proof -
  obtain st' where "loop (split markdown NL) 0 (False, []) = Inr st'"
    using loop_Inr by blast
  then show ?thesis
    by (cases st') (simp add: markdownToHtml_def renderFragments_def)
qed

section \<open>The empty document\<close>

text \<open>
  Claim C10. The empty string splits into a single empty line, which is blank and the
  last line: nothing is pushed, and \<open>markdownToHtml\<close> returns the empty string.
\<close>

theorem markdownToHtml_empty:
  "split (js '''') NL = [js ''''] \<and> renderFragments (js '''') = Inr [] \<and>
   markdownToHtml (js '''') = Inr (js '''')"
  by (simp add: markdownToHtml_def renderFragments_def split_def js_def trim_def
      loop.simps [of _ 0] loop.simps [of _ "Suc 0"] iteration_blank closeList_def join_def)

section \<open>Headings\<close>

lemma loop_heading:
  "i < length lines \<Longrightarrow> t = trim (lines ! i) \<Longrightarrow>
   (startsWith t (js ''### '') \<longrightarrow>
      loop lines i (inList, result) =
        loop lines (i + 1) (False, closeList inList result @ [h3 (substring t 4)]) \<and>
      (lines = split markdown NL \<longrightarrow>
        (\<exists>pre post. renderFragments markdown = Inr (pre @ [h3 (substring t 4)] @ post)))) \<and>
   (startsWith t (js ''## '') \<longrightarrow>
      loop lines i (inList, result) =
        loop lines (i + 1) (False, closeList inList result @ [h2 (substring t 3)]) \<and>
      (lines = split markdown NL \<longrightarrow>
        (\<exists>pre post. renderFragments markdown = Inr (pre @ [h2 (substring t 3)] @ post)))) \<and>
   (startsWith t (js ''# '') \<longrightarrow>
      loop lines i (inList, result) =
        loop lines (i + 1) (False, closeList inList result @ [h1 (substring t 2)]) \<and>
      (lines = split markdown NL \<longrightarrow>
        (\<exists>pre post. renderFragments markdown = Inr (pre @ [h1 (substring t 2)] @ post)))) \<and>
   markdownToHtml (js ''# Title'') =
      Inr (js ''<h1 class=\"text-2xl font-bold mt-8 mb-4\">Title</h1>'')"
proof -
  assume i: "i < length lines" and t: "t = trim (lines ! i)"
  have both: "loop lines i (inList, result) =
        loop lines (i + 1) (False, closeList inList result @ [f]) \<and>
      (lines = split markdown NL \<longrightarrow>
        (\<exists>pre post. renderFragments markdown = Inr (pre @ [f] @ post)))"
    if h: "\<And>b r. iteration lines i (b, r) = Inr (False, closeList b r @ [f])" for f
  proof (intro conjI impI)
    show "loop lines i (inList, result) = loop lines (i + 1) (False, closeList inList result @ [f])"
      by (rule loop_step [OF i h])
  next
    assume l: "lines = split markdown NL"
    show "\<exists>pre post. renderFragments markdown = Inr (pre @ [f] @ post)"
      using document_push [of i markdown False "[f]"] i h unfolding l by blast
  qed
  have e: "markdownToHtml (js ''# Title'') =
      Inr (js ''<h1 class=\"text-2xl font-bold mt-8 mb-4\">Title</h1>'')"
    by code_simp
  have 3: "startsWith t (js ''### '') \<Longrightarrow>
      (\<And>b r. iteration lines i (b, r) = Inr (False, closeList b r @ [h3 (substring t 4)]))"
    unfolding t by (rule iteration_h3 [OF i])
  have 2: "startsWith t (js ''## '') \<Longrightarrow>
      (\<And>b r. iteration lines i (b, r) = Inr (False, closeList b r @ [h2 (substring t 3)]))"
    unfolding t by (rule iteration_h2 [OF i])
  have 1: "startsWith t (js ''# '') \<Longrightarrow>
      (\<And>b r. iteration lines i (b, r) = Inr (False, closeList b r @ [h1 (substring t 2)]))"
    unfolding t by (rule iteration_h1 [OF i])
  from both [OF 3] both [OF 2] both [OF 1] e show ?thesis by blast
qed

text \<open>
  Claim C5. A line whose trimmed text starts with \<open>### \<close>, \<open>## \<close> or \<open># \<close> makes the
  loop push, after the closing tag of an open list, the text of an \<open>h3\<close>, \<open>h2\<close> or
  \<open>h1\<close> element: the opening tag with its classes, the trimmed text after the marker
  and its space, copied as it is with no inline substitution, and the closing tag. The
  three markers exclude each other. When \<open>lines\<close> are the lines of a document, that
  element is among the fragments the document renders to. \<open>markdownToHtml("# Title")\<close> is
  the single \<open>h1\<close> element with content \<open>Title\<close>, with no paragraph around it.
\<close>

theorem heading_lines:
  "i < length lines \<Longrightarrow> t = trim (lines ! i) \<Longrightarrow>
   (startsWith t (js ''### '') \<longrightarrow>
      loop lines i (inList, result) =
        loop lines (i + 1)
          (False, (if inList then result @ [js ''</ul>''] else result)
                    @ [js ''<h3 class=\"text-lg font-semibold mt-4 mb-2\">'' @ substring t 4 @ js ''</h3>'']) \<and>
      (lines = split markdown NL \<longrightarrow>
        (\<exists>pre post. renderFragments markdown =
           Inr (pre @ [js ''<h3 class=\"text-lg font-semibold mt-4 mb-2\">'' @ substring t 4 @ js ''</h3>''] @ post)))) \<and>
   (startsWith t (js ''## '') \<longrightarrow>
      loop lines i (inList, result) =
        loop lines (i + 1)
          (False, (if inList then result @ [js ''</ul>''] else result)
                    @ [js ''<h2 class=\"text-xl font-bold mt-6 mb-3\">'' @ substring t 3 @ js ''</h2>'']) \<and>
      (lines = split markdown NL \<longrightarrow>
        (\<exists>pre post. renderFragments markdown =
           Inr (pre @ [js ''<h2 class=\"text-xl font-bold mt-6 mb-3\">'' @ substring t 3 @ js ''</h2>''] @ post)))) \<and>
   (startsWith t (js ''# '') \<longrightarrow>
      loop lines i (inList, result) =
        loop lines (i + 1)
          (False, (if inList then result @ [js ''</ul>''] else result)
                    @ [js ''<h1 class=\"text-2xl font-bold mt-8 mb-4\">'' @ substring t 2 @ js ''</h1>'']) \<and>
      (lines = split markdown NL \<longrightarrow>
        (\<exists>pre post. renderFragments markdown =
           Inr (pre @ [js ''<h1 class=\"text-2xl font-bold mt-8 mb-4\">'' @ substring t 2 @ js ''</h1>''] @ post)))) \<and>
   markdownToHtml (js ''# Title'') =
      Inr (js ''<h1 class=\"text-2xl font-bold mt-8 mb-4\">Title</h1>'') \<and>
   markdownToHtml (js ''## Plan **now**'') =
      Inr (js ''<h2 class=\"text-xl font-bold mt-6 mb-3\">Plan **now**</h2>'') \<and>
   markdownToHtml (js ''### Risk *low*'') =
      Inr (js ''<h3 class=\"text-lg font-semibold mt-4 mb-2\">Risk *low*</h3>'')"
proof -
  assume i: "i < length lines" and t: "t = trim (lines ! i)"
  note a = loop_heading [OF i t, of inList result markdown, unfolded h3_def h2_def h1_def li_def para_def br_def ulOpen_def ulClose_def closeList_def]
  have e1: "markdownToHtml (js ''# Title'') =
      Inr (js ''<h1 class=\"text-2xl font-bold mt-8 mb-4\">Title</h1>'')"
    by code_simp
  have e2: "markdownToHtml (js ''## Plan **now**'') =
      Inr (js ''<h2 class=\"text-xl font-bold mt-6 mb-3\">Plan **now**</h2>'')"
    by code_simp
  have e3: "markdownToHtml (js ''### Risk *low*'') =
      Inr (js ''<h3 class=\"text-lg font-semibold mt-4 mb-2\">Risk *low*</h3>'')"
    by code_simp
  from a e1 e2 e3 show ?thesis by blast
qed

theorem heading_lines_witness:
  "loop [js '' ### a **b**''] 0 (True, []) =
     Inr (False, [js ''</ul>'', js ''<h3 class=\"text-lg font-semibold mt-4 mb-2\">a **b**</h3>'']) \<and>
   loop [js ''## *c*''] 0 (False, []) =
     Inr (False, [js ''<h2 class=\"text-xl font-bold mt-6 mb-3\">*c*</h2>'']) \<and>
   loop [js ''#  d''] 0 (False, []) =
     Inr (False, [js ''<h1 class=\"text-2xl font-bold mt-8 mb-4\"> d</h1>'']) \<and>
   (\<exists>pre post. renderFragments (js '' ### a **b**'') =
      Inr (pre @ [js ''<h3 class=\"text-lg font-semibold mt-4 mb-2\">a **b**</h3>''] @ post)) \<and>
   (\<exists>pre post. renderFragments (js ''## *c*'') =
      Inr (pre @ [js ''<h2 class=\"text-xl font-bold mt-6 mb-3\">*c*</h2>''] @ post)) \<and>
   (\<exists>pre post. renderFragments (js ''#  d'') =
      Inr (pre @ [js ''<h1 class=\"text-2xl font-bold mt-8 mb-4\"> d</h1>''] @ post))"
proof -
  have t: "js ''### a **b**'' = trim ([js '' ### a **b**''] ! 0)"
    "js ''## *c*'' = trim ([js ''## *c*''] ! 0)" "js ''#  d'' = trim ([js ''#  d''] ! 0)"
    by code_simp+
  have s: "startsWith (js ''### a **b**'') (js ''### '')" "startsWith (js ''## *c*'') (js ''## '')"
    "startsWith (js ''#  d'') (js ''# '')" by code_simp+
  have d: "js ''<h3 class=\"text-lg font-semibold mt-4 mb-2\">'' @ substring (js ''### a **b**'') 4 @ js ''</h3>'' =
      js ''<h3 class=\"text-lg font-semibold mt-4 mb-2\">a **b**</h3>''"
    "js ''<h2 class=\"text-xl font-bold mt-6 mb-3\">'' @ substring (js ''## *c*'') 3 @ js ''</h2>'' =
      js ''<h2 class=\"text-xl font-bold mt-6 mb-3\">*c*</h2>''"
    "js ''<h1 class=\"text-2xl font-bold mt-8 mb-4\">'' @ substring (js ''#  d'') 2 @ js ''</h1>'' =
      js ''<h1 class=\"text-2xl font-bold mt-8 mb-4\"> d</h1>''"
    by code_simp+
  have l: "[js '' ### a **b**''] = split (js '' ### a **b**'') NL"
    "[js ''## *c*''] = split (js ''## *c*'') NL" "[js ''#  d''] = split (js ''#  d'') NL"
    by code_simp+
  have i: "0 < length [x]" for x :: jsstring by simp
  note i3 = heading_lines [OF i t(1), of True "[]" "js '' ### a **b**''", unfolded d]
  note i2 = heading_lines [OF i t(2), of False "[]" "js ''## *c*''", unfolded d]
  note i1 = heading_lines [OF i t(3), of False "[]" "js ''#  d''", unfolded d]
  from i3 s(1) have "loop [js '' ### a **b**''] 0 (True, []) =
      loop [js '' ### a **b**''] (0 + 1) (False, (if True then [] @ [js ''</ul>''] else [])
        @ [js ''<h3 class=\"text-lg font-semibold mt-4 mb-2\">a **b**</h3>''])"
    by blast
  then have a: "loop [js '' ### a **b**''] 0 (True, []) =
      Inr (False, [js ''</ul>'', js ''<h3 class=\"text-lg font-semibold mt-4 mb-2\">a **b**</h3>''])"
    by (simp add: loop_done)
  from i2 s(2) have "loop [js ''## *c*''] 0 (False, []) =
      loop [js ''## *c*''] (0 + 1) (False, (if False then [] @ [js ''</ul>''] else [])
        @ [js ''<h2 class=\"text-xl font-bold mt-6 mb-3\">*c*</h2>''])"
    by blast
  then have b: "loop [js ''## *c*''] 0 (False, []) =
      Inr (False, [js ''<h2 class=\"text-xl font-bold mt-6 mb-3\">*c*</h2>''])"
    by (simp add: loop_done)
  from i1 s(3) have "loop [js ''#  d''] 0 (False, []) =
      loop [js ''#  d''] (0 + 1) (False, (if False then [] @ [js ''</ul>''] else [])
        @ [js ''<h1 class=\"text-2xl font-bold mt-8 mb-4\"> d</h1>''])"
    by blast
  then have c: "loop [js ''#  d''] 0 (False, []) =
      Inr (False, [js ''<h1 class=\"text-2xl font-bold mt-8 mb-4\"> d</h1>''])"
    by (simp add: loop_done)
  from i3 s(1) l(1) have a': "\<exists>pre post. renderFragments (js '' ### a **b**'') =
      Inr (pre @ [js ''<h3 class=\"text-lg font-semibold mt-4 mb-2\">a **b**</h3>''] @ post)"
    by blast
  from i2 s(2) l(2) have b': "\<exists>pre post. renderFragments (js ''## *c*'') =
      Inr (pre @ [js ''<h2 class=\"text-xl font-bold mt-6 mb-3\">*c*</h2>''] @ post)"
    by blast
  from i1 s(3) l(3) have c': "\<exists>pre post. renderFragments (js ''#  d'') =
      Inr (pre @ [js ''<h1 class=\"text-2xl font-bold mt-8 mb-4\"> d</h1>''] @ post)"
    by blast
  from a b c a' b' c' show ?thesis by blast
qed

section \<open>Blank lines\<close>

lemma loop_blank:
  "i < length lines \<Longrightarrow> trim (lines ! i) = [] \<Longrightarrow>
   (i < length lines - 1 \<longrightarrow>
      loop lines i (inList, result) = loop lines (i + 1) (False, closeList inList result @ [br]) \<and>
      (lines = split markdown NL \<longrightarrow>
        (\<exists>pre post. renderFragments markdown = Inr (pre @ [br] @ post)))) \<and>
   (i = length lines - 1 \<longrightarrow>
      loop lines i (inList, result) = Inr (False, closeList inList result)) \<and>
   markdownToHtml (js ''line1'' @ [NL, NL] @ js ''line2'') =
      Inr (para (js ''line1'') @ br @ para (js ''line2'')) \<and>
   markdownToHtml (js ''line1'' @ [NL, NL]) = Inr (para (js ''line1'') @ br) \<and>
   markdownToHtml (js ''line1'' @ [NL]) = Inr (para (js ''line1''))"
proof (intro conjI impI)
  assume i: "i < length lines" and blank: "trim (lines ! i) = []"
  {
    assume n: "i < length lines - 1"
    then show "loop lines i (inList, result) =
        loop lines (i + 1) (False, closeList inList result @ [br])"
      using loop_step [OF i iteration_blank [OF i blank]] by simp
    assume l: "lines = split markdown NL"
    have "\<And>b r. iteration lines i (b, r) = Inr (False, closeList b r @ [br])"
      using iteration_blank [OF i blank] n by simp
    then show "\<exists>pre post. renderFragments markdown = Inr (pre @ [br] @ post)"
      using document_push [of i markdown False "[br]"] i unfolding l by blast
  next
    assume last: "i = length lines - 1"
    then have "loop lines i (inList, result) = loop lines (i + 1) (False, closeList inList result)"
      using loop_step [OF i iteration_blank [OF i blank]] by simp
    also have "\<dots> = Inr (False, closeList inList result)"
      using last i by (simp add: loop_done)
    finally show "loop lines i (inList, result) = Inr (False, closeList inList result)" .
  }
next
  show "markdownToHtml (js ''line1'' @ [NL, NL] @ js ''line2'') =
      Inr (para (js ''line1'') @ br @ para (js ''line2''))"
    by code_simp
next
  show "markdownToHtml (js ''line1'' @ [NL, NL]) = Inr (para (js ''line1'') @ br)"
    by code_simp
next
  show "markdownToHtml (js ''line1'' @ [NL]) = Inr (para (js ''line1''))"
    by code_simp
qed

text \<open>
  Claim C3 (amended). A line that trims to the empty string and is not the last line makes
  the loop push exactly one \<open><br>\<close> (after closing an open list), which is then among
  the fragments of the document; when it is the last line nothing is pushed for it and
  the loop ends. Only the last line is silent: of two trailing blank lines the first one
  still pushes \<open><br>\<close>. So \<open>markdownToHtml("line1\n\nline2")\<close> has the \<open><br>\<close>
  between the two paragraphs, \<open>markdownToHtml("line1\n\n")\<close> is the paragraph followed
  by the \<open><br>\<close> of the first blank line, with nothing for the final empty line, and
  \<open>markdownToHtml("line1\n")\<close> is the paragraph alone.
\<close>

theorem blank_lines:
  "i < length lines \<Longrightarrow> trim (lines ! i) = [] \<Longrightarrow>
   (i < length lines - 1 \<longrightarrow>
      loop lines i (inList, result) =
        loop lines (i + 1)
          (False, (if inList then result @ [js ''</ul>''] else result) @ [js ''<br>'']) \<and>
      (lines = split markdown NL \<longrightarrow>
        (\<exists>pre post. renderFragments markdown = Inr (pre @ [js ''<br>''] @ post)))) \<and>
   (i = length lines - 1 \<longrightarrow>
      loop lines i (inList, result) =
        Inr (False, (if inList then result @ [js ''</ul>''] else result))) \<and>
   markdownToHtml (js ''line1'' @ [NL, NL] @ js ''line2'') =
      Inr (js ''<p class=\"mb-2\">line1</p><br><p class=\"mb-2\">line2</p>'') \<and>
   markdownToHtml (js ''line1'' @ [NL, NL]) = Inr (js ''<p class=\"mb-2\">line1</p><br>'') \<and>
   markdownToHtml (js ''line1'' @ [NL]) = Inr (js ''<p class=\"mb-2\">line1</p>'')"
proof -
  assume i: "i < length lines" and blank: "trim (lines ! i) = []"
  note a = loop_blank [OF i blank, of inList result markdown, unfolded h3_def h2_def h1_def li_def para_def br_def ulOpen_def ulClose_def closeList_def]
  have e1: "markdownToHtml (js ''line1'' @ [NL, NL] @ js ''line2'') =
      Inr (js ''<p class=\"mb-2\">line1</p><br><p class=\"mb-2\">line2</p>'')"
    by code_simp
  have e2: "markdownToHtml (js ''line1'' @ [NL, NL]) = Inr (js ''<p class=\"mb-2\">line1</p><br>'')"
    by code_simp
  have e3: "markdownToHtml (js ''line1'' @ [NL]) = Inr (js ''<p class=\"mb-2\">line1</p>'')"
    by code_simp
  from a e1 e2 e3 show ?thesis by blast
qed

theorem blank_lines_witness:
  "loop [[], js '' '', []] 0 (True, []) = Inr (False, [js ''</ul>'', js ''<br>'', js ''<br>'']) \<and>
   (\<exists>pre post. renderFragments [NL, 0x20, NL] = Inr (pre @ [js ''<br>''] @ post))"
proof -
  let ?ls = "[[], js '' '', []] :: jsstring list"
  have t: "trim (?ls ! 0) = []" "trim (?ls ! 1) = []" "trim (?ls ! 2) = []" by code_simp+
  have n: "0 < length ?ls" "1 < length ?ls" "2 < length ?ls"
    "0 < length ?ls - 1" "1 < length ?ls - 1" "2 = length ?ls - 1" by simp_all
  have l: "?ls = split [NL, 0x20, NL] NL" by code_simp
  note i0 = blank_lines [OF n(1) t(1), of True "[]" "[NL, 0x20, NL]"]
  note i1 = blank_lines [OF n(2) t(2), of False "[js ''</ul>'', js ''<br>'']"]
  note i2 = blank_lines [OF n(3) t(3), of False "[js ''</ul>'', js ''<br>'', js ''<br>'']"]
  have idx: "0 + 1 = (1::nat)" "1 + 1 = (2::nat)" by simp_all
  have r: "(if True then [] @ [js ''</ul>''] else []) @ [js ''<br>''] = [js ''</ul>'', js ''<br>'']"
    "(if False then [js ''</ul>'', js ''<br>''] @ [js ''</ul>'']
       else [js ''</ul>'', js ''<br>'']) @ [js ''<br>''] = [js ''</ul>'', js ''<br>'', js ''<br>'']"
    "(if False then [js ''</ul>'', js ''<br>'', js ''<br>''] @ [js ''</ul>'']
       else [js ''</ul>'', js ''<br>'', js ''<br>'']) = [js ''</ul>'', js ''<br>'', js ''<br>'']"
    by simp_all
  from i0 n(4) have s0: "loop ?ls 0 (True, []) = loop ?ls 1 (False, [js ''</ul>'', js ''<br>''])"
    unfolding r idx by blast
  from i1 n(5) have s1: "loop ?ls 1 (False, [js ''</ul>'', js ''<br>'']) =
      loop ?ls 2 (False, [js ''</ul>'', js ''<br>'', js ''<br>''])"
    unfolding r idx by blast
  from i2 n(6) have s2: "loop ?ls 2 (False, [js ''</ul>'', js ''<br>'', js ''<br>'']) =
      Inr (False, [js ''</ul>'', js ''<br>'', js ''<br>''])"
    unfolding r idx by blast
  from s0 s1 s2 have a: "loop ?ls 0 (True, []) = Inr (False, [js ''</ul>'', js ''<br>'', js ''<br>''])"
    by (simp only:)
  from i0 n(4) l have b: "\<exists>pre post. renderFragments [NL, 0x20, NL] = Inr (pre @ [js ''<br>''] @ post)"
    by blast
  from a b show ?thesis by blast
qed

text \<open>
  The claim as stated says that trailing blank lines produce no output. The document
  \<open>"line1\n\n"\<close> ends with two blank lines and the first of them produces \<open><br>\<close>.
\<close>

theorem trailing_blank_lines_counterexample:
  "markdownToHtml (js ''line1'' @ [NL, NL]) = Inr (js ''<p class=\"mb-2\">line1</p><br>'') \<and>
   markdownToHtml (js ''line1'') = Inr (js ''<p class=\"mb-2\">line1</p>'') \<and>
   markdownToHtml (js ''line1'' @ [NL, NL]) \<noteq> markdownToHtml (js ''line1'')"
  by code_simp

section \<open>List items\<close>

lemma loop_listItems:
  "length caps = k \<Longrightarrow> i + k \<le> length lines \<Longrightarrow>
   (\<forall>j<k. matchListItem (trim (lines ! (i + j))) = Some [trim (lines ! (i + j)), caps ! j]) \<Longrightarrow>
   caps \<noteq> [] \<Longrightarrow>
   loop lines i (inList, result) =
     loop lines (i + k)
       (True, (if \<not> inList then result @ [ulOpen] else result)
                @ map (\<lambda>c. li (inlineListItem c)) caps)"
proof (induction caps arbitrary: k i inList result)
  case Nil
  then show ?case by simp
next
  case (Cons c cs)
  from Cons.prems have k: "k = Suc (length cs)" and i: "i < length lines" by auto
  from Cons.prems(3) k have m0: "matchListItem (trim (lines ! i)) = Some [trim (lines ! i), c]"
    by (metis add.right_neutral nth_Cons_0 zero_less_Suc)
  have step: "loop lines i (inList, result) =
      loop lines (i + 1) (True, (if \<not> inList then result @ [ulOpen] else result) @ [li (inlineListItem c)])"
    using loop_step [OF i iteration_listItem [OF i m0]] .
  show ?case
  proof (cases "cs = []")
    case True
    with step k show ?thesis by simp
  next
    case False
    have rest: "\<forall>j<length cs. matchListItem (trim (lines ! (i + 1 + j))) =
        Some [trim (lines ! (i + 1 + j)), cs ! j]"
    proof (intro allI impI)
      fix j assume "j < length cs"
      then have "Suc j < k" using k by simp
      with Cons.prems(3) show "matchListItem (trim (lines ! (i + 1 + j))) =
        Some [trim (lines ! (i + 1 + j)), cs ! j]"
        by fastforce
    qed
    have "loop lines (i + 1) (True, (if \<not> inList then result @ [ulOpen] else result) @ [li (inlineListItem c)])
        = loop lines (i + 1 + length cs)
            (True, ((if \<not> inList then result @ [ulOpen] else result) @ [li (inlineListItem c)])
               @ map (\<lambda>c. li (inlineListItem c)) cs)"
      using Cons.IH [OF refl _ rest False, of True] Cons.prems(2) k by simp
    with step k show ?thesis by simp
  qed
qed

lemma loop_listItems_then:
  assumes caps: "caps \<noteq> []" and len: "i + length caps < length lines"
    and m: "\<forall>j<length caps.
      matchListItem (trim (lines ! (i + j))) = Some [trim (lines ! (i + j)), caps ! j]"
    and h: "\<And>b r. iteration lines (i + length caps) (b, r) = Inr (False, closeList b r @ [f])"
  shows "loop lines i (inList, result) =
     loop lines (i + length caps + 1)
       (False, result @ (if \<not> inList then [ulOpen] else [])
                 @ (map (\<lambda>c. li (inlineListItem c)) caps @ [ulClose, f]))"
proof -
  from len have le: "i + length caps \<le> length lines" by simp
  have "loop lines i (inList, result) =
      loop lines (i + length caps)
        (True, (if \<not> inList then result @ [ulOpen] else result)
                 @ map (\<lambda>c. li (inlineListItem c)) caps)"
    using loop_listItems [OF refl le m caps] .
  also have "\<dots> = loop lines (i + length caps + 1)
      (False, closeList True ((if \<not> inList then result @ [ulOpen] else result)
                 @ map (\<lambda>c. li (inlineListItem c)) caps) @ [f])"
    using loop_step [OF len h] .
  finally show ?thesis by (simp add: closeList_def)
qed

lemma rxMatchAt_no_star: "c \<noteq> STAR \<Longrightarrow> rxMatchAt r (c # cs) = None"
  by (cases r) (simp_all add: rxMatchAt_def rxOpen_def)

lemma replaceAll_no_star: "STAR \<notin> set s \<Longrightarrow> replaceAll r tagOpen tagClose s = s"
  by (induction s) (auto simp: rxMatchAt_no_star)

lemma inlineListItem_no_star: "STAR \<notin> set s \<Longrightarrow> inlineListItem s = s"
  by (simp add: inlineListItem_def replaceAll_no_star)

lemma loop_item_run:
  "caps \<noteq> [] \<Longrightarrow> i + length caps \<le> length lines \<Longrightarrow>
   (\<forall>j<length caps.
      matchListItem (trim (lines ! (i + j))) = Some [trim (lines ! (i + j)), caps ! j]) \<Longrightarrow>
   items = map (\<lambda>c. li (inlineListItem c)) caps \<Longrightarrow>
   loop lines i (inList, result) =
     loop lines (i + length caps) (True, result @ (if \<not> inList then [ulOpen] else []) @ items) \<and>
   (lines = split markdown NL \<longrightarrow>
     (\<exists>pre post. renderFragments markdown = Inr (pre @ items @ post))) \<and>
   ((\<forall>c\<in>set caps. STAR \<notin> set c) \<longrightarrow> items = map li caps) \<and>
   markdownToHtml (js ''- a'' @ [NL] @ js ''- b'') =
     Inr (ulOpen @ li (js ''a'') @ li (js ''b'') @ ulClose)"
proof (intro conjI impI)
  assume caps: "caps \<noteq> []" and len: "i + length caps \<le> length lines"
    and m: "\<forall>j<length caps.
      matchListItem (trim (lines ! (i + j))) = Some [trim (lines ! (i + j)), caps ! j]"
    and items: "items = map (\<lambda>c. li (inlineListItem c)) caps"
  have run: "loop lines i (b, r) =
      loop lines (i + length caps) (True, r @ (if \<not> b then [ulOpen] else []) @ items)" for b r
    using loop_listItems [OF refl len m caps, of b r] items by simp
  show "loop lines i (inList, result) =
     loop lines (i + length caps) (True, result @ (if \<not> inList then [ulOpen] else []) @ items)"
    by (rule run)
  {
    assume l: "lines = split markdown NL"
    show "\<exists>pre post. renderFragments markdown = Inr (pre @ items @ post)"
    proof (rule document_fragments)
      show "i \<le> length (split markdown NL)" using len l by simp
    next
      fix b r
      from run [of b r]
      show "\<exists>c mid. loop (split markdown NL) i (b, r) =
          loop (split markdown NL) (i + length caps) (c, r @ mid @ items)"
        unfolding l by blast
    qed
  next
    assume "\<forall>c\<in>set caps. STAR \<notin> set c"
    then show "items = map li caps"
      unfolding items by (simp add: inlineListItem_no_star)
  }
next
  show "markdownToHtml (js ''- a'' @ [NL] @ js ''- b'') =
     Inr (ulOpen @ li (js ''a'') @ li (js ''b'') @ ulClose)"
    by code_simp
qed

text \<open>
  Claim C6 (amended). A run of consecutive lines whose trimmed text matches
  \<open>^[-*]\s+(.+)$\<close>, with captures \<open>caps\<close>, makes the loop push one opening \<open><ul>\<close> tag
  with its classes when no list is open (none when one is), then one \<open><li>\<close> element
  per line, in input order, holding the line's capture after the bold and italic
  replacements of list items; a capture without an asterisk is held as it is. The items
  are consecutive fragments of the document. \<open>markdownToHtml("- a\n- b")\<close> is one list
  with the two items \<open>a\<close> and \<open>b\<close>.
\<close>

theorem list_item_runs:
  "caps \<noteq> [] \<Longrightarrow> i + length caps \<le> length lines \<Longrightarrow>
   (\<forall>j<length caps.
      matchListItem (trim (lines ! (i + j))) = Some [trim (lines ! (i + j)), caps ! j]) \<Longrightarrow>
   items = map (\<lambda>c. js ''<li>'' @ inlineListItem c @ js ''</li>'') caps \<Longrightarrow>
   loop lines i (inList, result) =
     loop lines (i + length caps)
       (True, result @ (if \<not> inList then [js ''<ul class=\"list-disc list-inside space-y-1 my-2 ml-4\">''] else []) @ items) \<and>
   (lines = split markdown NL \<longrightarrow>
     (\<exists>pre post. renderFragments markdown = Inr (pre @ items @ post))) \<and>
   ((\<forall>c\<in>set caps. STAR \<notin> set c) \<longrightarrow>
     items = map (\<lambda>c. js ''<li>'' @ c @ js ''</li>'') caps) \<and>
   markdownToHtml (js ''- a'' @ [NL] @ js ''- b'') =
     Inr (js ''<ul class=\"list-disc list-inside space-y-1 my-2 ml-4\"><li>a</li><li>b</li></ul>'')"
proof -
  assume caps: "caps \<noteq> []" and len: "i + length caps \<le> length lines"
    and m: "\<forall>j<length caps.
      matchListItem (trim (lines ! (i + j))) = Some [trim (lines ! (i + j)), caps ! j]"
    and items: "items = map (\<lambda>c. js ''<li>'' @ inlineListItem c @ js ''</li>'') caps"
  note a = loop_item_run [unfolded h3_def h2_def h1_def li_def para_def br_def ulOpen_def ulClose_def closeList_def li_def [abs_def], OF caps len m items,
      of inList result markdown]
  have e: "markdownToHtml (js ''- a'' @ [NL] @ js ''- b'') =
     Inr (js ''<ul class=\"list-disc list-inside space-y-1 my-2 ml-4\"><li>a</li><li>b</li></ul>'')"
    by code_simp
  from a e show ?thesis by blast
qed

theorem list_item_runs_witness:
  "loop [js ''- a'', js ''  *   b '', js ''-x''] 0 (False, []) =
     loop [js ''- a'', js ''  *   b '', js ''-x''] 2
       (True, [js ''<ul class=\"list-disc list-inside space-y-1 my-2 ml-4\">'', js ''<li>a</li>'', js ''<li>b</li>'']) \<and>
   (\<exists>pre post. renderFragments (js ''- a'' @ [NL] @ js ''  *   b '' @ [NL] @ js ''-x'') =
      Inr (pre @ [js ''<li>a</li>'', js ''<li>b</li>''] @ post))"
proof -
  let ?ls = "[js ''- a'', js ''  *   b '', js ''-x'']"
  let ?md = "js ''- a'' @ [NL] @ js ''  *   b '' @ [NL] @ js ''-x''"
  let ?caps = "[js ''a'', js ''b'']"
  have m0: "matchListItem (trim (js ''- a'')) = Some [trim (js ''- a''), js ''a'']"
    by code_simp
  have m1: "matchListItem (trim (js ''  *   b '')) = Some [trim (js ''  *   b ''), js ''b'']"
    by code_simp
  have m: "\<forall>j<length ?caps.
      matchListItem (trim (?ls ! (0 + j))) = Some [trim (?ls ! (0 + j)), ?caps ! j]"
    using m0 m1 by (simp add: All_less_Suc)
  have ns: "\<forall>c\<in>set ?caps. STAR \<notin> set c"
    by code_simp
  have l: "?ls = split ?md NL" by code_simp
  have ne: "?caps \<noteq> []" and len: "0 + length ?caps \<le> length ?ls" by simp_all
  have v: "map (\<lambda>c. js ''<li>'' @ c @ js ''</li>'') ?caps = [js ''<li>a</li>'', js ''<li>b</li>'']"
    by code_simp
  note inst = list_item_runs [OF ne len m refl, of False "[]" ?md]
  from inst ns have items: "map (\<lambda>c. js ''<li>'' @ inlineListItem c @ js ''</li>'') ?caps =
      [js ''<li>a</li>'', js ''<li>b</li>'']"
    unfolding v by blast
  from inst have "loop ?ls 0 (False, []) =
      loop ?ls (0 + length ?caps) (True, [] @ (if \<not> False then [js ''<ul class=\"list-disc list-inside space-y-1 my-2 ml-4\">''] else [])
        @ map (\<lambda>c. js ''<li>'' @ inlineListItem c @ js ''</li>'') ?caps)"
    by blast
  then have "loop ?ls 0 (False, []) = loop ?ls (0 + length ?caps)
      (True, [js ''<ul class=\"list-disc list-inside space-y-1 my-2 ml-4\">'', js ''<li>a</li>'', js ''<li>b</li>''])"
    unfolding items by simp
  moreover have "0 + length ?caps = 2" by simp
  ultimately have a: "loop ?ls 0 (False, []) =
      loop ?ls 2 (True, [js ''<ul class=\"list-disc list-inside space-y-1 my-2 ml-4\">'', js ''<li>a</li>'', js ''<li>b</li>''])"
    by (simp only:)
  from inst l have "\<exists>pre post. renderFragments ?md =
      Inr (pre @ map (\<lambda>c. js ''<li>'' @ inlineListItem c @ js ''</li>'') ?caps @ post)"
    by blast
  then have b: "\<exists>pre post. renderFragments ?md =
      Inr (pre @ [js ''<li>a</li>'', js ''<li>b</li>''] @ post)"
    unfolding items .
  from a b show ?thesis by blast
qed

text \<open>
  The claim as stated has the \<open><li>\<close> element hold the captured content. For
  \<open>"- *a*"\<close> the capture is \<open>*a*\<close> and the element holds \<open><em>a</em>\<close>.
\<close>

theorem list_item_content_counterexample:
  "matchListItem (trim (js ''- *a*'')) = Some [js ''- *a*'', js ''*a*''] \<and>
   markdownToHtml (js ''- *a*'') =
     Inr (js ''<ul class=\"list-disc list-inside space-y-1 my-2 ml-4\"><li><em>a</em></li></ul>'') \<and>
   markdownToHtml (js ''- *a*'') \<noteq>
     Inr (js ''<ul class=\"list-disc list-inside space-y-1 my-2 ml-4\"><li>*a*</li></ul>'')"
  by code_simp

section \<open>A heading after a list\<close>

lemma loop_items_heading:
  "caps \<noteq> [] \<Longrightarrow> i + length caps < length lines \<Longrightarrow>
   (\<forall>j<length caps.
      matchListItem (trim (lines ! (i + j))) = Some [trim (lines ! (i + j)), caps ! j]) \<Longrightarrow>
   t = trim (lines ! (i + length caps)) \<Longrightarrow>
   items = map (\<lambda>c. li (inlineListItem c)) caps \<Longrightarrow>
   (startsWith t (js ''### '') \<longrightarrow>
      loop lines i (inList, result) =
        loop lines (i + length caps + 1)
          (False, result @ (if \<not> inList then [ulOpen] else []) @ (items @ [ulClose, h3 (substring t 4)])) \<and>
      (lines = split markdown NL \<longrightarrow>
        (\<exists>pre post. renderFragments markdown =
           Inr (pre @ (items @ [ulClose, h3 (substring t 4)]) @ post)))) \<and>
   (startsWith t (js ''## '') \<longrightarrow>
      loop lines i (inList, result) =
        loop lines (i + length caps + 1)
          (False, result @ (if \<not> inList then [ulOpen] else []) @ (items @ [ulClose, h2 (substring t 3)])) \<and>
      (lines = split markdown NL \<longrightarrow>
        (\<exists>pre post. renderFragments markdown =
           Inr (pre @ (items @ [ulClose, h2 (substring t 3)]) @ post)))) \<and>
   (startsWith t (js ''# '') \<longrightarrow>
      loop lines i (inList, result) =
        loop lines (i + length caps + 1)
          (False, result @ (if \<not> inList then [ulOpen] else []) @ (items @ [ulClose, h1 (substring t 2)])) \<and>
      (lines = split markdown NL \<longrightarrow>
        (\<exists>pre post. renderFragments markdown =
           Inr (pre @ (items @ [ulClose, h1 (substring t 2)]) @ post)))) \<and>
   markdownToHtml (js ''- item'' @ [NL] @ js ''# Heading'') =
      Inr (ulOpen @ li (js ''item'') @ ulClose @ h1 (js ''Heading''))"
proof -
  assume caps: "caps \<noteq> []" and len: "i + length caps < length lines"
    and m: "\<forall>j<length caps.
      matchListItem (trim (lines ! (i + j))) = Some [trim (lines ! (i + j)), caps ! j]"
    and t: "t = trim (lines ! (i + length caps))"
    and items: "items = map (\<lambda>c. li (inlineListItem c)) caps"
  have both: "loop lines i (inList, result) =
        loop lines (i + length caps + 1)
          (False, result @ (if \<not> inList then [ulOpen] else []) @ (items @ [ulClose, f])) \<and>
      (lines = split markdown NL \<longrightarrow>
        (\<exists>pre post. renderFragments markdown = Inr (pre @ (items @ [ulClose, f]) @ post)))"
    if h: "\<And>b r. iteration lines (i + length caps) (b, r) = Inr (False, closeList b r @ [f])"
    for f
  proof (intro conjI impI)
    show "loop lines i (inList, result) =
        loop lines (i + length caps + 1)
          (False, result @ (if \<not> inList then [ulOpen] else []) @ (items @ [ulClose, f]))"
      unfolding items by (rule loop_listItems_then [OF caps len m h])
  next
    assume l: "lines = split markdown NL"
    show "\<exists>pre post. renderFragments markdown = Inr (pre @ (items @ [ulClose, f]) @ post)"
    proof (rule document_fragments)
      show "i \<le> length (split markdown NL)" using len l by simp
    next
      fix b r
      have "loop lines i (b, r) = loop lines (i + length caps + 1)
          (False, r @ (if \<not> b then [ulOpen] else []) @ (items @ [ulClose, f]))"
        unfolding items by (rule loop_listItems_then [OF caps len m h])
      then show "\<exists>c mid. loop (split markdown NL) i (b, r) =
          loop (split markdown NL) (i + length caps + 1) (c, r @ mid @ (items @ [ulClose, f]))"
        unfolding l by blast
    qed
  qed
  have e: "markdownToHtml (js ''- item'' @ [NL] @ js ''# Heading'') =
      Inr (ulOpen @ li (js ''item'') @ ulClose @ h1 (js ''Heading''))"
    by code_simp
  show ?thesis
  proof (intro conjI impI)
    assume "startsWith t (js ''### '')"
    then have "\<And>b r. iteration lines (i + length caps) (b, r) =
        Inr (False, closeList b r @ [h3 (substring t 4)])"
      unfolding t by (rule iteration_h3 [OF len])
    from both [OF this]
    show "loop lines i (inList, result) =
        loop lines (i + length caps + 1)
          (False, result @ (if \<not> inList then [ulOpen] else []) @ (items @ [ulClose, h3 (substring t 4)]))"
      and "lines = split markdown NL \<Longrightarrow> \<exists>pre post. renderFragments markdown =
           Inr (pre @ (items @ [ulClose, h3 (substring t 4)]) @ post)"
      by blast+
  next
    assume "startsWith t (js ''## '')"
    then have "\<And>b r. iteration lines (i + length caps) (b, r) =
        Inr (False, closeList b r @ [h2 (substring t 3)])"
      unfolding t by (rule iteration_h2 [OF len])
    from both [OF this]
    show "loop lines i (inList, result) =
        loop lines (i + length caps + 1)
          (False, result @ (if \<not> inList then [ulOpen] else []) @ (items @ [ulClose, h2 (substring t 3)]))"
      and "lines = split markdown NL \<Longrightarrow> \<exists>pre post. renderFragments markdown =
           Inr (pre @ (items @ [ulClose, h2 (substring t 3)]) @ post)"
      by blast+
  next
    assume "startsWith t (js ''# '')"
    then have "\<And>b r. iteration lines (i + length caps) (b, r) =
        Inr (False, closeList b r @ [h1 (substring t 2)])"
      unfolding t by (rule iteration_h1 [OF len])
    from both [OF this]
    show "loop lines i (inList, result) =
        loop lines (i + length caps + 1)
          (False, result @ (if \<not> inList then [ulOpen] else []) @ (items @ [ulClose, h1 (substring t 2)]))"
      and "lines = split markdown NL \<Longrightarrow> \<exists>pre post. renderFragments markdown =
           Inr (pre @ (items @ [ulClose, h1 (substring t 2)]) @ post)"
      by blast+
  next
    show "markdownToHtml (js ''- item'' @ [NL] @ js ''# Heading'') =
      Inr (ulOpen @ li (js ''item'') @ ulClose @ h1 (js ''Heading''))"
      by (rule e)
  qed
qed

text \<open>
  Claim C7. When a heading line follows one or more list item lines, the loop pushes the
  \<open><li>\<close> elements of the items, then the text \<open></ul>\<close>, then the heading element, and
  the fragments of the document hold them in this order, one right after the other: the
  list is closed before the heading although the input never closes it.
  \<open>markdownToHtml("- item\n# Heading")\<close> has \<open></ul>\<close> right before the \<open>h1\<close> element.
\<close>

theorem list_closed_before_heading:
  "caps \<noteq> [] \<Longrightarrow> i + length caps < length lines \<Longrightarrow>
   (\<forall>j<length caps.
      matchListItem (trim (lines ! (i + j))) = Some [trim (lines ! (i + j)), caps ! j]) \<Longrightarrow>
   t = trim (lines ! (i + length caps)) \<Longrightarrow>
   items = map (\<lambda>c. js ''<li>'' @ inlineListItem c @ js ''</li>'') caps \<Longrightarrow>
   (startsWith t (js ''### '') \<longrightarrow>
      loop lines i (inList, result) =
        loop lines (i + length caps + 1)
          (False, result @ (if \<not> inList then [js ''<ul class=\"list-disc list-inside space-y-1 my-2 ml-4\">''] else [])
             @ (items @ [js ''</ul>'', js ''<h3 class=\"text-lg font-semibold mt-4 mb-2\">'' @ substring t 4 @ js ''</h3>''])) \<and>
      (lines = split markdown NL \<longrightarrow>
        (\<exists>pre post. renderFragments markdown =
           Inr (pre @ (items @ [js ''</ul>'', js ''<h3 class=\"text-lg font-semibold mt-4 mb-2\">'' @ substring t 4 @ js ''</h3>'']) @ post)))) \<and>
   (startsWith t (js ''## '') \<longrightarrow>
      loop lines i (inList, result) =
        loop lines (i + length caps + 1)
          (False, result @ (if \<not> inList then [js ''<ul class=\"list-disc list-inside space-y-1 my-2 ml-4\">''] else [])
             @ (items @ [js ''</ul>'', js ''<h2 class=\"text-xl font-bold mt-6 mb-3\">'' @ substring t 3 @ js ''</h2>''])) \<and>
      (lines = split markdown NL \<longrightarrow>
        (\<exists>pre post. renderFragments markdown =
           Inr (pre @ (items @ [js ''</ul>'', js ''<h2 class=\"text-xl font-bold mt-6 mb-3\">'' @ substring t 3 @ js ''</h2>'']) @ post)))) \<and>
   (startsWith t (js ''# '') \<longrightarrow>
      loop lines i (inList, result) =
        loop lines (i + length caps + 1)
          (False, result @ (if \<not> inList then [js ''<ul class=\"list-disc list-inside space-y-1 my-2 ml-4\">''] else [])
             @ (items @ [js ''</ul>'', js ''<h1 class=\"text-2xl font-bold mt-8 mb-4\">'' @ substring t 2 @ js ''</h1>''])) \<and>
      (lines = split markdown NL \<longrightarrow>
        (\<exists>pre post. renderFragments markdown =
           Inr (pre @ (items @ [js ''</ul>'', js ''<h1 class=\"text-2xl font-bold mt-8 mb-4\">'' @ substring t 2 @ js ''</h1>'']) @ post)))) \<and>
   markdownToHtml (js ''- item'' @ [NL] @ js ''# Heading'') =
      Inr (js ''<ul class=\"list-disc list-inside space-y-1 my-2 ml-4\"><li>item</li></ul><h1 class=\"text-2xl font-bold mt-8 mb-4\">Heading</h1>'')"
proof -
  assume caps: "caps \<noteq> []" and len: "i + length caps < length lines"
    and m: "\<forall>j<length caps.
      matchListItem (trim (lines ! (i + j))) = Some [trim (lines ! (i + j)), caps ! j]"
    and t: "t = trim (lines ! (i + length caps))"
    and items: "items = map (\<lambda>c. js ''<li>'' @ inlineListItem c @ js ''</li>'') caps"
  note a = loop_items_heading [unfolded h3_def h2_def h1_def li_def para_def br_def ulOpen_def ulClose_def closeList_def, OF caps len m t items,
      of inList result markdown]
  have e: "markdownToHtml (js ''- item'' @ [NL] @ js ''# Heading'') =
      Inr (js ''<ul class=\"list-disc list-inside space-y-1 my-2 ml-4\"><li>item</li></ul><h1 class=\"text-2xl font-bold mt-8 mb-4\">Heading</h1>'')"
    by code_simp
  from a e show ?thesis by blast
qed

theorem list_closed_before_heading_witness:
  "loop [js ''- x'', js ''### a''] 0 (False, []) =
     Inr (False, [js ''<ul class=\"list-disc list-inside space-y-1 my-2 ml-4\">'', js ''<li>x</li>'', js ''</ul>'',
                  js ''<h3 class=\"text-lg font-semibold mt-4 mb-2\">a</h3>'']) \<and>
   loop [js ''- x'', js ''## a''] 0 (False, []) =
     Inr (False, [js ''<ul class=\"list-disc list-inside space-y-1 my-2 ml-4\">'', js ''<li>x</li>'', js ''</ul>'',
                  js ''<h2 class=\"text-xl font-bold mt-6 mb-3\">a</h2>'']) \<and>
   loop [js ''- x'', js ''# a''] 0 (False, []) =
     Inr (False, [js ''<ul class=\"list-disc list-inside space-y-1 my-2 ml-4\">'', js ''<li>x</li>'', js ''</ul>'',
                  js ''<h1 class=\"text-2xl font-bold mt-8 mb-4\">a</h1>'']) \<and>
   (\<exists>pre post. renderFragments (js ''- x'' @ [NL] @ js ''# a'') =
      Inr (pre @ [js ''<li>x</li>'', js ''</ul>'',
                  js ''<h1 class=\"text-2xl font-bold mt-8 mb-4\">a</h1>''] @ post))"
proof -
  let ?caps = "[js ''x'']"
  have il: "map (\<lambda>c. js ''<li>'' @ inlineListItem c @ js ''</li>'') ?caps = [js ''<li>x</li>'']"
    by code_simp
  have ne: "?caps \<noteq> []" by simp
  have run: "loop [js ''- x'', hl] 0 (False, []) =
      Inr (False, [js ''<ul class=\"list-disc list-inside space-y-1 my-2 ml-4\">'', js ''<li>x</li>'', js ''</ul>'', f])"
    if "loop [js ''- x'', hl] 0 (False, []) =
        loop [js ''- x'', hl] (0 + length ?caps + 1)
          (False, [] @ (if \<not> False then [js ''<ul class=\"list-disc list-inside space-y-1 my-2 ml-4\">''] else [])
             @ ([js ''<li>x</li>''] @ [js ''</ul>'', f]))" for hl f
    using that by (simp add: loop_done)
  have m: "\<forall>j<length ?caps. matchListItem (trim ([js ''- x'', hl] ! (0 + j))) =
      Some [trim ([js ''- x'', hl] ! (0 + j)), ?caps ! j]" for hl
  proof -
    have "matchListItem (trim (js ''- x'')) = Some [trim (js ''- x''), js ''x'']"
      by code_simp
    then show ?thesis by simp
  qed
  have len: "0 + length ?caps < length [js ''- x'', hl]" for hl :: jsstring by simp
  have t: "js ''### a'' = trim ([js ''- x'', js ''### a''] ! (0 + length ?caps))"
    "js ''## a'' = trim ([js ''- x'', js ''## a''] ! (0 + length ?caps))"
    "js ''# a'' = trim ([js ''- x'', js ''# a''] ! (0 + length ?caps))"
    by code_simp+
  have s: "startsWith (js ''### a'') (js ''### '')" "startsWith (js ''## a'') (js ''## '')"
    "startsWith (js ''# a'') (js ''# '')"
    by code_simp+
  have d: "js ''<h3 class=\"text-lg font-semibold mt-4 mb-2\">'' @ substring (js ''### a'') 4 @ js ''</h3>'' =
      js ''<h3 class=\"text-lg font-semibold mt-4 mb-2\">a</h3>''"
    "js ''<h2 class=\"text-xl font-bold mt-6 mb-3\">'' @ substring (js ''## a'') 3 @ js ''</h2>'' =
      js ''<h2 class=\"text-xl font-bold mt-6 mb-3\">a</h2>''"
    "js ''<h1 class=\"text-2xl font-bold mt-8 mb-4\">'' @ substring (js ''# a'') 2 @ js ''</h1>'' =
      js ''<h1 class=\"text-2xl font-bold mt-8 mb-4\">a</h1>''"
    by code_simp+
  have l: "[js ''- x'', js ''# a''] = split (js ''- x'' @ [NL] @ js ''# a'') NL"
    by code_simp
  note i3 = list_closed_before_heading [OF ne len m t(1) il [symmetric], of False "[]", unfolded d]
  note i2 = list_closed_before_heading [OF ne len m t(2) il [symmetric], of False "[]", unfolded d]
  note i1 = list_closed_before_heading [OF ne len m t(3) il [symmetric], of False "[]"
      "js ''- x'' @ [NL] @ js ''# a''", unfolded d]
  from i3 s(1) have a: "loop [js ''- x'', js ''### a''] 0 (False, []) =
      Inr (False, [js ''<ul class=\"list-disc list-inside space-y-1 my-2 ml-4\">'', js ''<li>x</li>'', js ''</ul>'',
                   js ''<h3 class=\"text-lg font-semibold mt-4 mb-2\">a</h3>''])"
    by (intro run) blast
  from i2 s(2) have b: "loop [js ''- x'', js ''## a''] 0 (False, []) =
      Inr (False, [js ''<ul class=\"list-disc list-inside space-y-1 my-2 ml-4\">'', js ''<li>x</li>'', js ''</ul>'',
                   js ''<h2 class=\"text-xl font-bold mt-6 mb-3\">a</h2>''])"
    by (intro run) blast
  from i1 s(3) have c: "loop [js ''- x'', js ''# a''] 0 (False, []) =
      Inr (False, [js ''<ul class=\"list-disc list-inside space-y-1 my-2 ml-4\">'', js ''<li>x</li>'', js ''</ul>'',
                   js ''<h1 class=\"text-2xl font-bold mt-8 mb-4\">a</h1>''])"
    by (intro run) blast
  from i1 s(3) l have "\<exists>pre post. renderFragments (js ''- x'' @ [NL] @ js ''# a'') =
      Inr (pre @ ([js ''<li>x</li>''] @ [js ''</ul>'',
                   js ''<h1 class=\"text-2xl font-bold mt-8 mb-4\">a</h1>'']) @ post)"
    by blast
  then have e: "\<exists>pre post. renderFragments (js ''- x'' @ [NL] @ js ''# a'') =
      Inr (pre @ [js ''<li>x</li>'', js ''</ul>'',
                  js ''<h1 class=\"text-2xl font-bold mt-8 mb-4\">a</h1>''] @ post)"
    by simp
  from a b c e show ?thesis by blast
qed

section \<open>Inline replacements of a paragraph\<close>

lemma stripPrefix_Some: "stripPrefix p s = Some t \<longleftrightarrow> s = p @ t"
  by (induction p s rule: stripPrefix.induct) auto

lemma lazyPlus_Some:
  "lazyPlus X close s = Some (cap, rest) \<Longrightarrow> s = cap @ close @ rest"
proof (induction s arbitrary: cap rest)
  case Nil
  then show ?case by simp
next
  case (Cons c cs)
  then show ?case
    by (auto simp: stripPrefix_Some split: if_splits option.splits)
qed

lemma rxMatchAt_Some:
  "rxMatchAt r s = Some (cap, rest) \<Longrightarrow> s = rxOpen r @ cap @ rxClose r @ rest"
  by (auto simp: rxMatchAt_def stripPrefix_Some split: option.splits dest: lazyPlus_Some)

lemma rxOpen_star: "\<exists>t. rxOpen r = STAR # t \<and> set t \<subseteq> {STAR}"
  by (cases r) (simp_all add: rxOpen_def)

lemma rxClose_star: "\<exists>t. rxClose r = STAR # t \<and> set t \<subseteq> {STAR}"
  by (cases r) (simp_all add: rxClose_def)

lemma stripPrefix_append: "stripPrefix p (p @ s) = Some s"
  by (induction p) simp_all

lemma stripPrefix_None: "stripPrefix p s = None \<longleftrightarrow> \<not> prefix p s"
  by (induction p s rule: stripPrefix.induct) auto

lemma lazyPlus_shortest:
  "x \<noteq> [] \<Longrightarrow> list_all X x \<Longrightarrow>
   (\<forall>k. 0 < k \<and> k < length x \<longrightarrow> \<not> prefix close (drop k (x @ close @ rest))) \<Longrightarrow>
   lazyPlus X close (x @ close @ rest) = Some (x, rest)"
proof (induction x)
  case Nil
  then show ?case by simp
next
  case (Cons c x)
  show ?case
  proof (cases "x = []")
    case True
    with Cons.prems show ?thesis by (simp add: stripPrefix_append)
  next
    case False
    from Cons.prems(3) False have "\<not> prefix close (drop 1 ((c # x) @ close @ rest))"
      by (metis One_nat_def length_Cons length_greater_0_conv less_Suc_eq_0_disj linorder_not_less not_less_eq zero_less_one)
    then have none: "stripPrefix close (x @ close @ rest) = None"
      by (simp add: stripPrefix_None)
    have "\<forall>k. 0 < k \<and> k < length x \<longrightarrow> \<not> prefix close (drop k (x @ close @ rest))"
    proof (intro allI impI)
      fix k assume "0 < k \<and> k < length x"
      then have "0 < Suc k \<and> Suc k < length (c # x)" by simp
      with Cons.prems(3) have "\<not> prefix close (drop (Suc k) ((c # x) @ close @ rest))"
        by blast
      then show "\<not> prefix close (drop k (x @ close @ rest))" by simp
    qed
    with Cons.IH False Cons.prems(2) have "lazyPlus X close (x @ close @ rest) = Some (x, rest)"
      by simp
    with none Cons.prems(2) show ?thesis by simp
  qed
qed

lemma replaceAll_bold_span:
  assumes "x \<noteq> []" "list_all (\<lambda>c. \<not> isLineTerminator c) x"
    "\<forall>k. 0 < k \<and> k < length x \<longrightarrow> \<not> prefix [STAR, STAR] (drop k (x @ [STAR, STAR] @ rest))"
  shows "replaceAll RxBold tagOpen tagClose ([STAR, STAR] @ x @ [STAR, STAR] @ rest) =
     tagOpen @ x @ tagClose @ replaceAll RxBold tagOpen tagClose rest"
proof -
  have "rxMatchAt RxBold ([STAR, STAR] @ x @ [STAR, STAR] @ rest) = Some (x, rest)"
    using lazyPlus_shortest [OF assms(1), of "\<lambda>c. \<not> isLineTerminator c" "[STAR, STAR]" rest] assms(2,3)
    by (simp add: rxMatchAt_def rxOpen_def rxClose_def rxClass_def [abs_def])
  then show ?thesis by simp
qed

lemma replaceAll_italic_span:
  assumes "x \<noteq> []" "STAR \<notin> set x"
  shows "replaceAll RxItalicNoStar tagOpen tagClose ([STAR] @ x @ [STAR] @ rest) =
     tagOpen @ x @ tagClose @ replaceAll RxItalicNoStar tagOpen tagClose rest"
proof -
  have all: "list_all (\<lambda>c. c \<noteq> STAR) x"
    using assms(2) by (auto simp: list_all_iff)
  have "\<forall>k. 0 < k \<and> k < length x \<longrightarrow> \<not> prefix [STAR] (drop k (x @ [STAR] @ rest))"
  proof (intro allI impI)
    fix k assume k: "0 < k \<and> k < length x"
    then have "drop k (x @ [STAR] @ rest) = (x ! k) # drop (Suc k) x @ [STAR] @ rest"
      by (simp add: Cons_nth_drop_Suc)
    moreover have "x ! k \<noteq> STAR" using k assms(2) by (metis nth_mem)
    ultimately show "\<not> prefix [STAR] (drop k (x @ [STAR] @ rest))" by simp
  qed
  then have "rxMatchAt RxItalicNoStar ([STAR] @ x @ [STAR] @ rest) = Some (x, rest)"
    using lazyPlus_shortest [OF assms(1) all, of "[STAR]" rest]
    by (simp add: rxMatchAt_def rxOpen_def rxClose_def rxClass_def [abs_def])
  then show ?thesis by simp
qed

lemma loop_paragraph:
  "i < length lines \<Longrightarrow> t = trim (lines ! i) \<Longrightarrow>
   \<not> startsWith t (js ''### '') \<Longrightarrow> \<not> startsWith t (js ''## '') \<Longrightarrow>
   \<not> startsWith t (js ''# '') \<Longrightarrow> matchListItem t = None \<Longrightarrow> t \<noteq> [] \<Longrightarrow>
   bold = replaceAll RxBold (js ''<strong>'') (js ''</strong>'') \<Longrightarrow>
   italic = replaceAll RxItalicNoStar (js ''<em>'') (js ''</em>'') \<Longrightarrow>
   loop lines i (inList, result) =
     loop lines (i + 1) (False, closeList inList result @ [para (italic (bold t))]) \<and>
   (lines = split markdown NL \<longrightarrow>
     (\<exists>pre post. renderFragments markdown = Inr (pre @ [para (italic (bold t))] @ post))) \<and>
   (x \<noteq> [] \<and> list_all (\<lambda>c. \<not> isLineTerminator c) x \<and>
    (\<forall>k. 0 < k \<and> k < length x \<longrightarrow> \<not> prefix [STAR, STAR] (drop k (x @ [STAR, STAR] @ rest)))
    \<longrightarrow> bold ([STAR, STAR] @ x @ [STAR, STAR] @ rest) =
          js ''<strong>'' @ x @ js ''</strong>'' @ bold rest) \<and>
   (y \<noteq> [] \<and> STAR \<notin> set y
    \<longrightarrow> italic ([STAR] @ y @ [STAR] @ rest) = js ''<em>'' @ y @ js ''</em>'' @ italic rest) \<and>
   (c \<noteq> STAR \<longrightarrow> bold (c # rest) = c # bold rest \<and> italic (c # rest) = c # italic rest) \<and>
   markdownToHtml (js ''**bold** and *italic*'') =
     Inr (para (js ''<strong>bold</strong> and <em>italic</em>'')) \<and>
   STAR \<notin> set (para (js ''<strong>bold</strong> and <em>italic</em>''))"
proof (intro conjI impI)
  assume i: "i < length lines" and t: "t = trim (lines ! i)"
    and nh: "\<not> startsWith t (js ''### '')" "\<not> startsWith t (js ''## '')"
      "\<not> startsWith t (js ''# '')"
    and nl: "matchListItem t = None" and ne: "t \<noteq> []"
    and bold: "bold = replaceAll RxBold (js ''<strong>'') (js ''</strong>'')"
    and italic: "italic = replaceAll RxItalicNoStar (js ''<em>'') (js ''</em>'')"
  have it: "iteration lines i (b, r) = Inr (False, closeList b r @ [para (italic (bold t))])" for b r
    using iteration_paragraph [OF i] nh nl ne
    unfolding t bold italic inlineParagraph_def by simp
  show "loop lines i (inList, result) =
     loop lines (i + 1) (False, closeList inList result @ [para (italic (bold t))])"
    by (rule loop_step [OF i it])
  {
    assume l: "lines = split markdown NL"
    show "\<exists>pre post. renderFragments markdown = Inr (pre @ [para (italic (bold t))] @ post)"
      using document_push [of i markdown False "[para (italic (bold t))]"] i it unfolding l
      by blast
  next
    assume "x \<noteq> [] \<and> list_all (\<lambda>c. \<not> isLineTerminator c) x \<and>
      (\<forall>k. 0 < k \<and> k < length x \<longrightarrow> \<not> prefix [STAR, STAR] (drop k (x @ [STAR, STAR] @ rest)))"
    then show "bold ([STAR, STAR] @ x @ [STAR, STAR] @ rest) =
          js ''<strong>'' @ x @ js ''</strong>'' @ bold rest"
      unfolding bold using replaceAll_bold_span by blast
  next
    assume "y \<noteq> [] \<and> STAR \<notin> set y"
    then show "italic ([STAR] @ y @ [STAR] @ rest) = js ''<em>'' @ y @ js ''</em>'' @ italic rest"
      unfolding italic using replaceAll_italic_span by blast
  next
    assume "c \<noteq> STAR"
    then show "bold (c # rest) = c # bold rest" "italic (c # rest) = c # italic rest"
      unfolding bold italic by (simp_all add: rxMatchAt_no_star)
  }
next
  show "markdownToHtml (js ''**bold** and *italic*'') =
     Inr (para (js ''<strong>bold</strong> and <em>italic</em>''))"
    by code_simp
next
  show "STAR \<notin> set (para (js ''<strong>bold</strong> and <em>italic</em>''))"
    by code_simp
qed

lemma lazyPlus_sound:
  "lazyPlus X close s = Some (cap, rest) \<Longrightarrow>
   cap \<noteq> [] \<and> list_all X cap \<and>
   (\<forall>k. 0 < k \<and> k < length cap \<longrightarrow> \<not> prefix close (drop k s))"
proof (induction s arbitrary: cap rest)
  case Nil
  then show ?case by simp
next
  case (Cons c cs)
  from Cons.prems have X: "X c" by (simp split: if_splits)
  show ?case
  proof (cases "stripPrefix close cs")
    case (Some r)
    with Cons.prems X have "cap = [c]" by simp
    with X show ?thesis by simp
  next
    case None
    with Cons.prems X obtain cap' where l: "lazyPlus X close cs = Some (cap', rest)"
      and cap: "cap = c # cap'"
      by (auto split: option.splits)
    from Cons.IH [OF l] have ih: "cap' \<noteq> []" "list_all X cap'"
      "\<forall>k. 0 < k \<and> k < length cap' \<longrightarrow> \<not> prefix close (drop k cs)"
      by blast+
    have "\<not> prefix close (drop k (c # cs))" if k: "0 < k \<and> k < length cap" for k
    proof (cases k)
      case 0
      with k show ?thesis by simp
    next
      case (Suc k')
      show ?thesis
      proof (cases "k' = 0")
        case True
        with Suc None show ?thesis by (simp add: stripPrefix_None)
      next
        case False
        with Suc k cap ih(3) show ?thesis by simp
      qed
    qed
    with cap X ih show ?thesis by simp
  qed
qed

lemma lazyPlus_complete:
  "x \<noteq> [] \<Longrightarrow> list_all X x \<Longrightarrow> \<exists>cap r. lazyPlus X close (x @ close @ rest) = Some (cap, r)"
proof (induction x)
  case Nil
  then show ?case by simp
next
  case (Cons c x)
  show ?case
  proof (cases "x = []")
    case True
    with Cons.prems show ?thesis by (simp add: stripPrefix_append)
  next
    case False
    with Cons obtain cap r where "lazyPlus X close (x @ close @ rest) = Some (cap, r)"
      by auto
    with Cons.prems show ?thesis by (auto split: option.splits)
  qed
qed

lemma rxMatchAt_sound:
  assumes "rxMatchAt r s = Some (cap, rest)"
  shows "s = rxOpen r @ cap @ rxClose r @ rest" "cap \<noteq> []" "list_all (rxClass r) cap"
    "\<forall>k. 0 < k \<and> k < length cap \<longrightarrow> \<not> prefix (rxClose r) (drop k (cap @ rxClose r @ rest))"
proof -
  from assms obtain s' where s': "stripPrefix (rxOpen r) s = Some s'"
    and l: "lazyPlus (rxClass r) (rxClose r) s' = Some (cap, rest)"
    by (auto simp: rxMatchAt_def split: option.splits)
  from lazyPlus_Some [OF l] have e: "s' = cap @ rxClose r @ rest" .
  from s' e show "s = rxOpen r @ cap @ rxClose r @ rest" by (simp add: stripPrefix_Some)
  from lazyPlus_sound [OF l] e show "cap \<noteq> []" "list_all (rxClass r) cap"
    "\<forall>k. 0 < k \<and> k < length cap \<longrightarrow> \<not> prefix (rxClose r) (drop k (cap @ rxClose r @ rest))"
    by simp_all
qed

lemma rxMatchAt_complete:
  assumes "x \<noteq> []" "list_all (rxClass r) x"
  shows "\<exists>cap rest'. rxMatchAt r (rxOpen r @ x @ rxClose r @ rest) = Some (cap, rest')"
  using lazyPlus_complete [OF assms, of "rxClose r" rest]
  by (simp add: rxMatchAt_def stripPrefix_append)

lemma replaceAll_first_span:
  assumes "x \<noteq> []" "list_all (rxClass r) x"
  shows "\<exists>cap rest'. rxOpen r @ x @ rxClose r @ rest = rxOpen r @ cap @ rxClose r @ rest' \<and>
     cap \<noteq> [] \<and> list_all (rxClass r) cap \<and>
     (\<forall>k. 0 < k \<and> k < length cap \<longrightarrow>
        \<not> prefix (rxClose r) (drop k (cap @ rxClose r @ rest'))) \<and>
     replaceAll r tagOpen tagClose (rxOpen r @ x @ rxClose r @ rest) =
       tagOpen @ cap @ tagClose @ replaceAll r tagOpen tagClose rest'"
proof -
  let ?s = "rxOpen r @ x @ rxClose r @ rest"
  obtain cap rest' where m: "rxMatchAt r ?s = Some (cap, rest')"
    using rxMatchAt_complete [OF assms] by blast
  obtain t where "rxOpen r = STAR # t" using rxOpen_star by blast
  then obtain cs where cs: "?s = STAR # cs" by simp
  from m have "replaceAll r tagOpen tagClose ?s =
      tagOpen @ cap @ tagClose @ replaceAll r tagOpen tagClose rest'"
    unfolding cs by simp
  with rxMatchAt_sound [OF m] show ?thesis by blast
qed

lemma replaceAll_no_span:
  assumes "\<not> (\<exists>x rest. c # cs = rxOpen r @ x @ rxClose r @ rest \<and> x \<noteq> [] \<and> list_all (rxClass r) x)"
  shows "replaceAll r tagOpen tagClose (c # cs) = c # replaceAll r tagOpen tagClose cs"
proof (cases "rxMatchAt r (c # cs)")
  case None
  then show ?thesis by simp
next
  case (Some m)
  obtain cap rest where "m = (cap, rest)" by (cases m)
  with Some rxMatchAt_sound(1-3) [of r "c # cs" cap rest] assms show ?thesis by blast
qed

text \<open>
  Claim C8 (amended). A paragraph line pushes a \<open><p class="mb-2">\<close> element, a fragment
  of the document, whose content is the trimmed line after the bold replacement and then
  the italic replacement. Each replacement scans from left to right:
  \<^item> where the text \<open>**x**\<close> starts, with \<open>x\<close> non-empty and free of line terminators
    (LF, CR, U+2028, U+2029), the bold replacement writes \<open><strong>x</strong>\<close> for
    the shortest such \<open>x\<close> (the closing \<open>**\<close> is the first one after the first code unit
    of \<open>x\<close>) and goes on after the span;
  \<^item> where the text \<open>*y*\<close> starts, with \<open>y\<close> non-empty and free of asterisks, the italic
    replacement writes \<open><em>y</em>\<close> and goes on after the span;
  \<^item> a code unit at which no such span starts, an asterisk included, is copied and the
    scan goes on with the next code unit.
  \<open>markdownToHtml("**bold** and *italic*")\<close> is the paragraph
  \<open><strong>bold</strong> and <em>italic</em>\<close>, with no asterisk left.
\<close>

theorem paragraph_inline:
  "i < length lines \<Longrightarrow> t = trim (lines ! i) \<Longrightarrow>
   \<not> startsWith t (js ''### '') \<Longrightarrow> \<not> startsWith t (js ''## '') \<Longrightarrow>
   \<not> startsWith t (js ''# '') \<Longrightarrow> matchListItem t = None \<Longrightarrow> t \<noteq> [] \<Longrightarrow>
   bold = replaceAll RxBold (js ''<strong>'') (js ''</strong>'') \<Longrightarrow>
   italic = replaceAll RxItalicNoStar (js ''<em>'') (js ''</em>'') \<Longrightarrow>
   loop lines i (inList, result) =
     loop lines (i + 1)
       (False, (if inList then result @ [js ''</ul>''] else result)
                 @ [js ''<p class=\"mb-2\">'' @ italic (bold t) @ js ''</p>'']) \<and>
   (lines = split markdown NL \<longrightarrow>
     (\<exists>pre post. renderFragments markdown =
        Inr (pre @ [js ''<p class=\"mb-2\">'' @ italic (bold t) @ js ''</p>''] @ post))) \<and>
   bold [] = [] \<and> italic [] = [] \<and>
   (x \<noteq> [] \<and> list_all (\<lambda>c. \<not> isLineTerminator c) x \<and>
    (\<forall>k. 0 < k \<and> k < length x \<longrightarrow> \<not> prefix [STAR, STAR] (drop k (x @ [STAR, STAR] @ rest)))
    \<longrightarrow> bold ([STAR, STAR] @ x @ [STAR, STAR] @ rest) =
          js ''<strong>'' @ x @ js ''</strong>'' @ bold rest) \<and>
   (x \<noteq> [] \<and> list_all (\<lambda>c. \<not> isLineTerminator c) x
    \<longrightarrow> (\<exists>x' rest'. [STAR, STAR] @ x @ [STAR, STAR] @ rest = [STAR, STAR] @ x' @ [STAR, STAR] @ rest' \<and>
          x' \<noteq> [] \<and> list_all (\<lambda>c. \<not> isLineTerminator c) x' \<and>
          (\<forall>k. 0 < k \<and> k < length x' \<longrightarrow>
             \<not> prefix [STAR, STAR] (drop k (x' @ [STAR, STAR] @ rest'))) \<and>
          bold ([STAR, STAR] @ x @ [STAR, STAR] @ rest) =
            js ''<strong>'' @ x' @ js ''</strong>'' @ bold rest')) \<and>
   (\<not> (\<exists>x' rest'. c # cs = [STAR, STAR] @ x' @ [STAR, STAR] @ rest' \<and> x' \<noteq> [] \<and>
          list_all (\<lambda>c. \<not> isLineTerminator c) x')
    \<longrightarrow> bold (c # cs) = c # bold cs) \<and>
   (y \<noteq> [] \<and> STAR \<notin> set y
    \<longrightarrow> italic ([STAR] @ y @ [STAR] @ rest) = js ''<em>'' @ y @ js ''</em>'' @ italic rest) \<and>
   (\<not> (\<exists>y' rest'. c # cs = [STAR] @ y' @ [STAR] @ rest' \<and> y' \<noteq> [] \<and> STAR \<notin> set y')
    \<longrightarrow> italic (c # cs) = c # italic cs) \<and>
   markdownToHtml (js ''**bold** and *italic*'') =
     Inr (js ''<p class=\"mb-2\"><strong>bold</strong> and <em>italic</em></p>'') \<and>
   STAR \<notin> set (js ''<p class=\"mb-2\"><strong>bold</strong> and <em>italic</em></p>'') \<and>
   markdownToHtml (js ''2 * 3 **b**'') = Inr (js ''<p class=\"mb-2\">2 * 3 <strong>b</strong></p>'')"
proof -
  assume i: "i < length lines" and t: "t = trim (lines ! i)"
    and nh: "\<not> startsWith t (js ''### '')" "\<not> startsWith t (js ''## '')"
      "\<not> startsWith t (js ''# '')"
    and nl: "matchListItem t = None" and ne: "t \<noteq> []"
    and bold: "bold = replaceAll RxBold (js ''<strong>'') (js ''</strong>'')"
    and italic: "italic = replaceAll RxItalicNoStar (js ''<em>'') (js ''</em>'')"
  note a = loop_paragraph [OF i t nh nl ne bold italic, of inList result markdown x rest y,
      unfolded h3_def h2_def h1_def li_def para_def br_def ulOpen_def ulClose_def closeList_def]
  have 1: "loop lines i (inList, result) =
     loop lines (i + 1)
       (False, (if inList then result @ [js ''</ul>''] else result)
                 @ [js ''<p class=\"mb-2\">'' @ italic (bold t) @ js ''</p>''])"
    using a by blast
  have 2: "lines = split markdown NL \<longrightarrow>
     (\<exists>pre post. renderFragments markdown =
        Inr (pre @ [js ''<p class=\"mb-2\">'' @ italic (bold t) @ js ''</p>''] @ post))"
    using a by blast
  have 3: "bold [] = []" "italic [] = []"
    unfolding bold italic by simp_all
  have 4: "x \<noteq> [] \<and> list_all (\<lambda>c. \<not> isLineTerminator c) x \<and>
    (\<forall>k. 0 < k \<and> k < length x \<longrightarrow> \<not> prefix [STAR, STAR] (drop k (x @ [STAR, STAR] @ rest)))
    \<longrightarrow> bold ([STAR, STAR] @ x @ [STAR, STAR] @ rest) =
          js ''<strong>'' @ x @ js ''</strong>'' @ bold rest"
    using a by blast
  have cb: "rxClass RxBold = (\<lambda>c. \<not> isLineTerminator c)"
    and ci: "rxClass RxItalicNoStar = (\<lambda>c. c \<noteq> STAR)"
    by (simp_all add: rxClass_def [abs_def])
  have 5: "x \<noteq> [] \<and> list_all (\<lambda>c. \<not> isLineTerminator c) x
    \<longrightarrow> (\<exists>x' rest'. [STAR, STAR] @ x @ [STAR, STAR] @ rest = [STAR, STAR] @ x' @ [STAR, STAR] @ rest' \<and>
          x' \<noteq> [] \<and> list_all (\<lambda>c. \<not> isLineTerminator c) x' \<and>
          (\<forall>k. 0 < k \<and> k < length x' \<longrightarrow>
             \<not> prefix [STAR, STAR] (drop k (x' @ [STAR, STAR] @ rest'))) \<and>
          bold ([STAR, STAR] @ x @ [STAR, STAR] @ rest) =
            js ''<strong>'' @ x' @ js ''</strong>'' @ bold rest')"
    using replaceAll_first_span [of x RxBold rest "js ''<strong>''" "js ''</strong>''"]
    unfolding bold cb by (simp add: rxOpen_def rxClose_def)
  have 6: "\<not> (\<exists>x' rest'. c # cs = [STAR, STAR] @ x' @ [STAR, STAR] @ rest' \<and> x' \<noteq> [] \<and>
          list_all (\<lambda>c. \<not> isLineTerminator c) x')
    \<longrightarrow> bold (c # cs) = c # bold cs"
    using replaceAll_no_span [of c cs RxBold "js ''<strong>''" "js ''</strong>''"]
    unfolding bold cb by (simp add: rxOpen_def rxClose_def)
  have 7: "y \<noteq> [] \<and> STAR \<notin> set y
    \<longrightarrow> italic ([STAR] @ y @ [STAR] @ rest) = js ''<em>'' @ y @ js ''</em>'' @ italic rest"
    using a by blast
  have 8: "\<not> (\<exists>y' rest'. c # cs = [STAR] @ y' @ [STAR] @ rest' \<and> y' \<noteq> [] \<and> STAR \<notin> set y')
    \<longrightarrow> italic (c # cs) = c # italic cs"
    using replaceAll_no_span [of c cs RxItalicNoStar "js ''<em>''" "js ''</em>''"]
    unfolding italic ci by (simp add: rxOpen_def rxClose_def list_all_iff)
  have e1: "markdownToHtml (js ''**bold** and *italic*'') =
     Inr (js ''<p class=\"mb-2\"><strong>bold</strong> and <em>italic</em></p>'')"
    by code_simp
  have e2: "STAR \<notin> set (js ''<p class=\"mb-2\"><strong>bold</strong> and <em>italic</em></p>'')"
    by code_simp
  have e3: "markdownToHtml (js ''2 * 3 **b**'') =
      Inr (js ''<p class=\"mb-2\">2 * 3 <strong>b</strong></p>'')"
    by code_simp
  from 1 2 3 4 5 6 7 8 e1 e2 e3 show ?thesis by (intro conjI)
qed

theorem paragraph_inline_witness:
  "loop [js '' see **ab** and *c* ''] 0 (True, []) =
     Inr (False, [js ''</ul>'', js ''<p class=\"mb-2\">see <strong>ab</strong> and <em>c</em></p>'']) \<and>
   (\<exists>pre post. renderFragments (js '' see **ab** and *c* '') =
      Inr (pre @ [js ''<p class=\"mb-2\">see <strong>ab</strong> and <em>c</em></p>''] @ post)) \<and>
   replaceAll RxBold (js ''<strong>'') (js ''</strong>'') (js ''**a*b**!'') =
     js ''<strong>a*b</strong>!'' \<and>
   replaceAll RxItalicNoStar (js ''<em>'') (js ''</em>'') (js ''*c*!'') = js ''<em>c</em>!'' \<and>
   replaceAll RxBold (js ''<strong>'') (js ''</strong>'') (js ''* 3'') = js ''* 3'' \<and>
   replaceAll RxItalicNoStar (js ''<em>'') (js ''</em>'') (js ''* 3'') = js ''* 3''"
proof -
  let ?ls = "[js '' see **ab** and *c* '']"
  let ?t = "js ''see **ab** and *c*''"
  let ?bold = "replaceAll RxBold (js ''<strong>'') (js ''</strong>'')"
  let ?italic = "replaceAll RxItalicNoStar (js ''<em>'') (js ''</em>'')"
  have t: "?t = trim (?ls ! 0)" by code_simp
  have nh: "\<not> startsWith ?t (js ''### '')" "\<not> startsWith ?t (js ''## '')"
    "\<not> startsWith ?t (js ''# '')" by code_simp+
  have nl: "matchListItem ?t = None" by code_simp
  have ne: "?t \<noteq> []" by code_simp
  have i: "0 < length ?ls" by simp
  note inst = paragraph_inline [where inList = True and result = "[]"
      and markdown = "js '' see **ab** and *c* ''" and x = "js ''a*b''" and rest = "js ''!''"
      and y = "js ''c''" and c = STAR and cs = "js '' 3''", OF i t nh nl ne refl refl]
  have l: "?ls = split (js '' see **ab** and *c* '') NL" by code_simp
  have x: "js ''a*b'' \<noteq> []" "list_all (\<lambda>c. \<not> isLineTerminator c) (js ''a*b'')"
    by code_simp+
  have k: "\<forall>k. 0 < k \<and> k < length (js ''a*b'') \<longrightarrow>
      \<not> prefix [STAR, STAR] (drop k (js ''a*b'' @ [STAR, STAR] @ js ''!''))"
  proof (intro allI impI)
    fix k assume "0 < k \<and> k < length (js ''a*b'')"
    then have "k = 1 \<or> k = 2" by (auto simp: js_def)
    moreover have "\<not> prefix [STAR, STAR] (drop 1 (js ''a*b'' @ [STAR, STAR] @ js ''!''))"
      by code_simp
    moreover have "\<not> prefix [STAR, STAR] (drop 2 (js ''a*b'' @ [STAR, STAR] @ js ''!''))"
      by code_simp
    ultimately show "\<not> prefix [STAR, STAR] (drop k (js ''a*b'' @ [STAR, STAR] @ js ''!''))"
      by blast
  qed
  have y: "js ''c'' \<noteq> []" "STAR \<notin> set (js ''c'')" by code_simp+
  have ns: "STAR \<notin> set (js '' 3'')" by code_simp
  have n6: "\<not> (\<exists>x' rest'. STAR # js '' 3'' = [STAR, STAR] @ x' @ [STAR, STAR] @ rest' \<and> x' \<noteq> [] \<and>
      list_all (\<lambda>c. \<not> isLineTerminator c) x')"
    using ns by auto
  have n8: "\<not> (\<exists>y' rest'. STAR # js '' 3'' = [STAR] @ y' @ [STAR] @ rest' \<and> y' \<noteq> [] \<and>
      STAR \<notin> set y')"
    using ns by auto
  have v: "js ''<p class=\"mb-2\">'' @ ?italic (?bold ?t) @ js ''</p>'' =
      js ''<p class=\"mb-2\">see <strong>ab</strong> and <em>c</em></p>''"
    by code_simp
  have e: "[STAR, STAR] @ js ''a*b'' @ [STAR, STAR] @ js ''!'' = js ''**a*b**!''"
    "[STAR] @ js ''c'' @ [STAR] @ js ''!'' = js ''*c*!''"
    "js ''<strong>'' @ js ''a*b'' @ js ''</strong>'' @ ?bold (js ''!'') = js ''<strong>a*b</strong>!''"
    "js ''<em>'' @ js ''c'' @ js ''</em>'' @ ?italic (js ''!'') = js ''<em>c</em>!''"
    "STAR # js '' 3'' = js ''* 3''"
    "STAR # ?bold (js '' 3'') = js ''* 3''" "STAR # ?italic (js '' 3'') = js ''* 3''"
    by code_simp+
  have r: "(if True then [] @ [js ''</ul>''] else []) = [js ''</ul>'']" by simp
  from inst have "loop ?ls 0 (True, []) =
      loop ?ls (0 + 1) (False, (if True then [] @ [js ''</ul>''] else [])
        @ [js ''<p class=\"mb-2\">'' @ ?italic (?bold ?t) @ js ''</p>''])"
    by blast
  then have a: "loop ?ls 0 (True, []) =
      Inr (False, [js ''</ul>'', js ''<p class=\"mb-2\">see <strong>ab</strong> and <em>c</em></p>''])"
    unfolding v r by (simp add: loop_done)
  from inst l have b: "\<exists>pre post. renderFragments (js '' see **ab** and *c* '') =
      Inr (pre @ [js ''<p class=\"mb-2\">see <strong>ab</strong> and <em>c</em></p>''] @ post)"
    unfolding v by blast
  from inst x k have "?bold ([STAR, STAR] @ js ''a*b'' @ [STAR, STAR] @ js ''!'') =
      js ''<strong>'' @ js ''a*b'' @ js ''</strong>'' @ ?bold (js ''!'')"
    by blast
  then have c: "?bold (js ''**a*b**!'') = js ''<strong>a*b</strong>!''"
    unfolding e .
  from inst y have "?italic ([STAR] @ js ''c'' @ [STAR] @ js ''!'') =
      js ''<em>'' @ js ''c'' @ js ''</em>'' @ ?italic (js ''!'')"
    by blast
  then have d: "?italic (js ''*c*!'') = js ''<em>c</em>!''"
    unfolding e .
  from inst n6 have "?bold (STAR # js '' 3'') = STAR # ?bold (js '' 3'')"
    by blast
  then have f: "?bold (js ''* 3'') = js ''* 3''"
    unfolding e .
  from inst n8 have "?italic (STAR # js '' 3'') = STAR # ?italic (js '' 3'')"
    by blast
  then have g: "?italic (js ''* 3'') = js ''* 3''"
    unfolding e .
  from a b c d f g show ?thesis by blast
qed

text \<open>
  The claim as stated has every \<open>**...**\<close> span replaced. The atom \<open>.\<close> of the bold
  expression matches no line terminator, so a span with a carriage return inside is not
  replaced: \<open>"**c\rd**"\<close> keeps its outer asterisks, and the italic expression, whose
  class \<open>[^*]\<close> has the carriage return, then takes the inner ones.
\<close>

theorem bold_span_counterexample:
  "markdownToHtml (js ''**c'' @ [0x0D] @ js ''d**'') =
     Inr (js ''<p class=\"mb-2\">*<em>c'' @ [0x0D] @ js ''d</em>*</p>'') \<and>
   markdownToHtml (js ''**c'' @ [0x0D] @ js ''d**'') \<noteq>
     Inr (js ''<p class=\"mb-2\"><strong>c'' @ [0x0D] @ js ''d</strong></p>'')"
  by code_simp

section \<open>The two italic expressions\<close>

text \<open>
  Claim C4. The claim says that list items and paragraphs get the same inline
  replacement, whose italic step matches only spans free of asterisks. The list item
  branch uses \<open>/\*(.+?)\*/g\<close>, the paragraph branch \<open>/\*([^*]+?)\*/g\<close>, and the two differ
  on \<open>**text*\<close>: the list item captures \<open>*text\<close>, the paragraph captures \<open>text\<close>.
\<close>

theorem inline_passes_differ:
  "markdownToHtml (js ''- **text*'') =
     Inr (js ''<ul class=\"list-disc list-inside space-y-1 my-2 ml-4\"><li><em>*text</em></li></ul>'') \<and>
   markdownToHtml (js ''**text*'') = Inr (js ''<p class=\"mb-2\">*<em>text</em></p>'') \<and>
   inlineListItem (js ''**text*'') = js ''<em>*text</em>'' \<and>
   inlineParagraph (js ''**text*'') = js ''*<em>text</em>''"
  by code_simp

section \<open>No empty list\<close>

lemma fragment_neq:
  "h3 t \<noteq> ulOpen" "h2 t \<noteq> ulOpen" "h1 t \<noteq> ulOpen" "li t \<noteq> ulOpen" "para t \<noteq> ulOpen"
  "br \<noteq> ulOpen" "ulClose \<noteq> ulOpen"
  "h3 t \<noteq> ulClose" "h2 t \<noteq> ulClose" "h1 t \<noteq> ulClose" "li t \<noteq> ulClose" "para t \<noteq> ulClose"
  "br \<noteq> ulClose" "ulOpen \<noteq> ulClose"
  by (simp_all add: h3_def h2_def h1_def li_def para_def br_def ulClose_def ulOpen_def js_def)

lemma opensFollowedByLi_Cons [simp]:
  "opensFollowedByLi (f # fs) =
     ((f = ulOpen \<longrightarrow> startsWith (join fs) (js ''<li>'')) \<and> opensFollowedByLi fs)"
  by (simp add: ulOpen_def startsWith_def join_def)

declare opensFollowedByLi.simps(2) [simp del]

lemma opensFollowedByLi_append:
  "opensFollowedByLi a \<Longrightarrow> opensFollowedByLi b \<Longrightarrow> opensFollowedByLi (a @ b)"
  by (induction a) (auto simp: startsWith_def join_def)

lemma opensFollowedByLi_open_li: "opensFollowedByLi [ulOpen, li t]"
  by (simp add: fragment_neq) (simp add: startsWith_def join_def li_def)

lemma opensFollowedByLi_closeList:
  "opensFollowedByLi result \<Longrightarrow> opensFollowedByLi (closeList inList result)"
  by (simp add: closeList_def opensFollowedByLi_append fragment_neq)

lemma iteration_opens:
  assumes "iteration lines i (inList, result) = Inr (inList', result')"
    and "opensFollowedByLi result"
  shows "opensFollowedByLi result'"
proof -
  have a: "opensFollowedByLi (closeList inList result @ [f])" if "f \<noteq> ulOpen" for f
    using that assms(2) by (simp add: opensFollowedByLi_append opensFollowedByLi_closeList)
  have b: "opensFollowedByLi (result @ [ulOpen] @ [li t])" for t
    using assms(2) opensFollowedByLi_open_li by (simp add: opensFollowedByLi_append)
  have c: "opensFollowedByLi (result @ [li t])" for t
    using assms(2) by (simp add: opensFollowedByLi_append fragment_neq)
  from assms(1) show ?thesis
    using a b c assms(2)
    by (auto simp: iteration_def Let_def fragment_neq opensFollowedByLi_closeList
        split: option.splits if_splits)
qed

lemma loop_opens:
  "loop lines i st = Inr st' \<Longrightarrow> opensFollowedByLi (snd st) \<Longrightarrow> opensFollowedByLi (snd st')"
proof (induction lines i st rule: loop.induct)
  case (1 lines i st)
  show ?case
  proof (cases "i < length lines")
    case True
    then obtain st1 where st1: "iteration lines i st = Inr st1"
      using iteration_Inr by blast
    then have "opensFollowedByLi (snd st1)"
      using iteration_opens [of lines i "fst st" "snd st" "fst st1" "snd st1"] "1.prems"(2)
      by simp
    moreover have "loop lines (i + 1) st1 = Inr st'"
      using "1.prems"(1) True st1 by (simp add: loop.simps [of lines i])
    ultimately show ?thesis
      using "1.IH" [OF True st1] by simp
  next
    case False
    with "1.prems" show ?thesis by (simp add: loop.simps [of lines i])
  qed
qed

lemma fragments_open_li:
  "\<exists>frs. renderFragments markdown = Inr frs \<and> markdownToHtml markdown = Inr (join frs) \<and>
     opensFollowedByLi frs"
proof -
  obtain inList result where l: "loop (split markdown NL) 0 (False, []) = Inr (inList, result)"
    using loop_Inr by (metis surj_pair)
  from loop_opens [OF l] have "opensFollowedByLi result" by simp
  then have "opensFollowedByLi (closeList inList result)"
    by (rule opensFollowedByLi_closeList)
  with l show ?thesis
    by (simp add: renderFragments_def markdownToHtml_def)
qed

text \<open>
  Claim C9. In the fragments \<open>markdownToHtml\<close> concatenates, every opening \<open><ul>\<close> tag the
  renderer pushed is directly followed by the text \<open><li>\<close> of a list item: no rendered
  list is empty.
\<close>

theorem no_empty_list:
  "\<exists>frs. renderFragments markdown = Inr frs \<and> markdownToHtml markdown = Inr (concat frs) \<and>
     opensFollowedByLi frs"
  using fragments_open_li [of markdown] by (simp add: join_def)

theorem no_empty_list_witness:
  "renderFragments (js ''- a'' @ [NL] @ js ''x'' @ [NL] @ js ''* b'') =
     Inr [js ''<ul class=\"list-disc list-inside space-y-1 my-2 ml-4\">'', js ''<li>a</li>'', js ''</ul>'', js ''<p class=\"mb-2\">x</p>'',
          js ''<ul class=\"list-disc list-inside space-y-1 my-2 ml-4\">'', js ''<li>b</li>'', js ''</ul>''] \<and>
   opensFollowedByLi
     [js ''<ul class=\"list-disc list-inside space-y-1 my-2 ml-4\">'', js ''<li>a</li>'', js ''</ul>'', js ''<p class=\"mb-2\">x</p>'',
      js ''<ul class=\"list-disc list-inside space-y-1 my-2 ml-4\">'', js ''<li>b</li>'', js ''</ul>'']"
proof -
  have v: "renderFragments (js ''- a'' @ [NL] @ js ''x'' @ [NL] @ js ''* b'') =
     Inr [js ''<ul class=\"list-disc list-inside space-y-1 my-2 ml-4\">'', js ''<li>a</li>'', js ''</ul>'', js ''<p class=\"mb-2\">x</p>'',
          js ''<ul class=\"list-disc list-inside space-y-1 my-2 ml-4\">'', js ''<li>b</li>'', js ''</ul>'']"
    by code_simp
  with no_empty_list [of "js ''- a'' @ [NL] @ js ''x'' @ [NL] @ js ''* b''"]
  show ?thesis by auto
qed

section \<open>List balance\<close>

lemma iteration_balance:
  assumes "iteration lines i (inList, result) = Inr (inList', result')"
    and "count_list result ulOpen = count_list result ulClose + (if inList then 1 else 0)"
  shows "count_list result' ulOpen = count_list result' ulClose + (if inList' then 1 else 0)"
  using assms
  by (auto simp: iteration_def Let_def closeList_def fragment_neq
      split: option.splits if_splits)

lemma loop_balance:
  "loop lines i st = Inr st' \<Longrightarrow>
   count_list (snd st) ulOpen = count_list (snd st) ulClose + (if fst st then 1 else 0) \<Longrightarrow>
   count_list (snd st') ulOpen = count_list (snd st') ulClose + (if fst st' then 1 else 0)"
proof (induction lines i st rule: loop.induct)
  case (1 lines i st)
  show ?case
  proof (cases "i < length lines")
    case True
    then obtain st1 where st1: "iteration lines i st = Inr st1"
      using iteration_Inr by blast
    then have "count_list (snd st1) ulOpen =
        count_list (snd st1) ulClose + (if fst st1 then 1 else 0)"
      using iteration_balance [of lines i "fst st" "snd st" "fst st1" "snd st1"] "1.prems"(2)
      by simp
    moreover have "loop lines (i + 1) st1 = Inr st'"
      using "1.prems"(1) True st1 by (simp add: loop.simps [of lines i])
    ultimately show ?thesis
      using "1.IH" [OF True st1] by simp
  next
    case False
    with "1.prems" show ?thesis by (simp add: loop.simps [of lines i])
  qed
qed

subsection \<open>Occurrences of a text in a concatenation\<close>

lemma occurrences_append:
  assumes "\<forall>us vs. p = us @ vs \<and> us \<noteq> [] \<and> vs \<noteq> [] \<longrightarrow> \<not> (suffix us a \<and> prefix vs b)"
  shows "occurrences p (a @ b) = occurrences p a + occurrences p b"
  using assms
proof (induction a)
  case Nil
  then show ?case by simp
next
  case (Cons x a)
  have ih: "occurrences p (a @ b) = occurrences p a + occurrences p b"
  proof (rule Cons.IH, intro allI impI)
    fix us vs assume "p = us @ vs \<and> us \<noteq> [] \<and> vs \<noteq> []"
    with Cons.prems have "\<not> (suffix us (x # a) \<and> prefix vs b)" by blast
    then show "\<not> (suffix us a \<and> prefix vs b)" by (auto simp: suffix_Cons)
  qed
  have "prefix p (x # a @ b) \<longleftrightarrow> prefix p (x # a)"
  proof
    assume "prefix p (x # a @ b)"
    then have "prefix p ((x # a) @ b)" by simp
    then consider "prefix p (x # a)" | us where "p = (x # a) @ us" "prefix us b"
      unfolding prefix_append by blast
    then show "prefix p (x # a)"
    proof cases
      case 1
      then show ?thesis .
    next
      case 2
      show ?thesis
      proof (cases "us = []")
        case True
        with 2 show ?thesis by simp
      next
        case False
        with 2 Cons.prems have "\<not> (suffix (x # a) (x # a) \<and> prefix us b)" by blast
        with 2 show ?thesis by simp
      qed
    qed
  next
    assume "prefix p (x # a)"
    then have "prefix p ((x # a) @ b)" using prefix_prefix by blast
    then show "prefix p (x # a @ b)" by simp
  qed
  with ih show ?case by simp
qed

lemma occurrences_split_at:
  assumes "ch \<notin> set p" "p \<noteq> []"
  shows "occurrences p (a @ ch # b) = occurrences p a + occurrences p b"
proof -
  have "occurrences p (a @ ch # b) = occurrences p a + occurrences p (ch # b)"
  proof (rule occurrences_append, intro allI impI)
    fix us vs assume h: "p = us @ vs \<and> us \<noteq> [] \<and> vs \<noteq> []"
    show "\<not> (suffix us a \<and> prefix vs (ch # b))"
    proof
      assume "suffix us a \<and> prefix vs (ch # b)"
      with h have "hd vs = ch" by (cases vs) auto
      with h have "ch \<in> set p" by (cases vs) auto
      with assms show False by simp
    qed
  qed
  moreover have "\<not> prefix p (ch # b)"
    using assms by (cases p) auto
  ultimately show ?thesis by simp
qed

lemma occurrences_before:
  assumes "p = ch # q" "ch \<notin> set q"
  shows "occurrences p (a @ ch # b) = occurrences p a + occurrences p (ch # b)"
proof (rule occurrences_append, intro allI impI)
  fix us vs assume h: "p = us @ vs \<and> us \<noteq> [] \<and> vs \<noteq> []"
  show "\<not> (suffix us a \<and> prefix vs (ch # b))"
  proof
    assume "suffix us a \<and> prefix vs (ch # b)"
    with h have "hd vs = ch" by (cases vs) auto
    with h have "ch \<in> set vs" by (cases vs) auto
    moreover from h assms(1) have "set vs \<subseteq> set q" by (cases us) auto
    ultimately show False using assms(2) by blast
  qed
qed

lemma occurrences_after:
  assumes "ch \<notin> set (butlast p)"
  shows "occurrences p ((a @ [ch]) @ b) = occurrences p (a @ [ch]) + occurrences p b"
proof (rule occurrences_append, intro allI impI)
  fix us vs assume h: "p = us @ vs \<and> us \<noteq> [] \<and> vs \<noteq> []"
  show "\<not> (suffix us (a @ [ch]) \<and> prefix vs b)"
  proof
    assume "suffix us (a @ [ch]) \<and> prefix vs b"
    with h have "last us = ch" by (auto simp: suffix_def) (metis last_appendR last_snoc)
    with h have "ch \<in> set us" by (metis last_in_set)
    moreover from h have "set us \<subseteq> set (butlast p)" by (simp add: butlast_append)
    ultimately show False using assms by blast
  qed
qed

lemma replaceAll_prefix:
  "STAR \<notin> set q \<Longrightarrow> LT \<notin> set q \<Longrightarrow> tagOpen = LT # t \<Longrightarrow>
   prefix q (replaceAll r tagOpen tagClose s) \<longleftrightarrow> prefix q s"
proof (induction r tagOpen tagClose s arbitrary: q rule: replaceAll.induct)
  case (1 r tagOpen tagClose)
  then show ?case by simp
next
  case (2 r tagOpen tagClose c cs)
  show ?case
  proof (cases q)
    case Nil
    then show ?thesis by simp
  next
    case (Cons q0 q')
    show ?thesis
    proof (cases "rxMatchAt r (c # cs)")
      case None
      with "2.IH"(1) [OF None, of q'] "2.prems" Cons show ?thesis by simp
    next
      case (Some m)
      obtain cap rest where m: "m = (cap, rest)" by (cases m)
      from rxMatchAt_Some [OF Some [unfolded m]] rxOpen_star [of r] have "c = STAR"
        by auto
      with Some m "2.prems" Cons show ?thesis by auto
    qed
  qed
qed

lemma occurrences_skip:
  "\<forall>c\<in>set t. c \<notin> set p \<Longrightarrow> p \<noteq> [] \<Longrightarrow> occurrences p (t @ b) = occurrences p b"
proof (induction t)
  case Nil
  then show ?case by simp
next
  case (Cons c t)
  then have "occurrences p ([] @ c # (t @ b)) = occurrences p [] + occurrences p (t @ b)"
    by (intro occurrences_split_at) auto
  with Cons show ?case by simp
qed

lemma occurrences_skip_end:
  assumes "\<forall>c\<in>set t. c \<notin> set p" "p \<noteq> []"
  shows "occurrences p (a @ t) = occurrences p a"
proof (cases t)
  case Nil
  then show ?thesis by simp
next
  case (Cons c t')
  with assms have "occurrences p (a @ c # t') = occurrences p a + occurrences p t'"
    by (intro occurrences_split_at) auto
  moreover from assms Cons have "occurrences p (t' @ []) = occurrences p []"
    by (intro occurrences_skip) auto
  ultimately show ?thesis using Cons by simp
qed

lemma occurrences_tagged:
  assumes p: "p = LT # q" "LT \<notin> set q" "GT \<notin> set (butlast p)"
    and tag: "g = LT # m @ [GT]" "occurrences p g = 0"
  shows "occurrences p (a @ g @ b) = occurrences p a + occurrences p b"
proof -
  have "occurrences p (a @ LT # (m @ [GT] @ b)) =
      occurrences p a + occurrences p (LT # (m @ [GT] @ b))"
    using p(1,2) by (rule occurrences_before)
  moreover have "occurrences p (((LT # m) @ [GT]) @ b) =
      occurrences p ((LT # m) @ [GT]) + occurrences p b"
    using p(3) by (rule occurrences_after)
  ultimately show ?thesis using tag by simp
qed

lemma replaceAll_occurrences:
  assumes p: "p = LT # q" "LT \<notin> set q" "GT \<notin> set (butlast p)" "STAR \<notin> set q"
    and tags: "tagOpen = LT # mo @ [GT]" "occurrences p tagOpen = 0"
      "tagClose = LT # mc @ [GT]" "occurrences p tagClose = 0"
  shows "occurrences p (replaceAll r tagOpen tagClose s) = occurrences p s"
  using tags
proof (induction r tagOpen tagClose s rule: replaceAll.induct)
  case (1 r tagOpen tagClose)
  then show ?case by simp
next
  case (2 r tagOpen tagClose c cs)
  have sp: "STAR \<notin> set p" "p \<noteq> []"
    using p by (auto simp: STAR_def LT_def)
  show ?case
  proof (cases "rxMatchAt r (c # cs)")
    case None
    have "prefix p (c # replaceAll r tagOpen tagClose cs) \<longleftrightarrow> prefix p (c # cs)"
      using replaceAll_prefix [OF p(4,2), of tagOpen "mo @ [GT]" r tagClose cs] "2.prems"(1) p(1)
      by simp
    with None "2.IH"(1) [OF None "2.prems"] show ?thesis by simp
  next
    case (Some m)
    obtain cap rest where m: "m = (cap, rest)" by (cases m)
    obtain t1 t2 where t: "rxOpen r = STAR # t1" "set t1 \<subseteq> {STAR}"
      "rxClose r = STAR # t2" "set t2 \<subseteq> {STAR}"
      using rxOpen_star rxClose_star by blast
    have s: "c # cs = rxOpen r @ cap @ rxClose r @ rest"
      using rxMatchAt_Some [OF Some [unfolded m]] .
    have "occurrences p (rxOpen r @ (cap @ rxClose r @ rest)) = occurrences p (cap @ rxClose r @ rest)"
      using t sp by (intro occurrences_skip) auto
    moreover have "occurrences p (cap @ STAR # (t2 @ rest)) = occurrences p cap + occurrences p (t2 @ rest)"
      using sp by (intro occurrences_split_at)
    moreover have "occurrences p (t2 @ rest) = occurrences p rest"
      using t sp by (intro occurrences_skip) auto
    ultimately have src: "occurrences p (c # cs) = occurrences p cap + occurrences p rest"
      using s t by simp
    let ?R = "replaceAll r tagOpen tagClose rest"
    have "occurrences p ([] @ tagOpen @ (cap @ tagClose @ ?R)) =
        occurrences p [] + occurrences p (cap @ tagClose @ ?R)"
      using p(1,2,3) "2.prems"(1,2) by (rule occurrences_tagged)
    moreover have "occurrences p (cap @ tagClose @ ?R) = occurrences p cap + occurrences p ?R"
      using p(1,2,3) "2.prems"(3,4) by (rule occurrences_tagged)
    moreover have "occurrences p ?R = occurrences p rest"
      using "2.IH"(2) [OF Some m [symmetric] "2.prems"] .
    ultimately show ?thesis using Some m src by simp
  qed
qed

lemma listTag_props:
  assumes "p = js ''<ul'' \<or> p = js ''</ul>''"
  shows "\<exists>q. p = LT # q \<and> LT \<notin> set q \<and> STAR \<notin> set q"
    and "GT \<notin> set (butlast p)"
    and "p \<noteq> []"
    and "\<forall>c\<in>set p. \<not> isWhiteSpace c"
    and "STAR \<notin> set p" "DASH \<notin> set p" "NL \<notin> set p"
    and "\<forall>c\<in>set (js ''### ''). c \<notin> set p"
  using assms
  by (auto simp: js_def LT_def GT_def STAR_def DASH_def NL_def isWhiteSpace_def)

lemma trim_decompose:
  "\<exists>w1 w2. s = w1 @ trim s @ w2 \<and> (\<forall>c\<in>set w1. isWhiteSpace c) \<and> (\<forall>c\<in>set w2. isWhiteSpace c)"
proof -
  let ?d = "dropWhile isWhiteSpace s"
  have 1: "s = takeWhile isWhiteSpace s @ ?d" by simp
  have "rev (takeWhile isWhiteSpace (rev ?d) @ dropWhile isWhiteSpace (rev ?d)) = rev (rev ?d)"
    by (simp only: takeWhile_dropWhile_id)
  then have "rev (dropWhile isWhiteSpace (rev ?d)) @ rev (takeWhile isWhiteSpace (rev ?d)) = ?d"
    by (simp only: rev_append rev_rev_ident)
  then have 2: "?d = trim s @ rev (takeWhile isWhiteSpace (rev ?d))"
    by (simp only: trim_def)
  have 3: "\<forall>c\<in>set (takeWhile isWhiteSpace s). isWhiteSpace c"
    by (auto dest: set_takeWhileD)
  have 4: "\<forall>c\<in>set (rev (takeWhile isWhiteSpace (rev ?d))). isWhiteSpace c"
    by (auto dest: set_takeWhileD)
  from 1 2 have "s = takeWhile isWhiteSpace s @ trim s @ rev (takeWhile isWhiteSpace (rev ?d))"
    by metis
  with 3 4 show ?thesis by blast
qed

lemma trim_occurrences:
  assumes "\<forall>c\<in>set p. \<not> isWhiteSpace c" "p \<noteq> []"
  shows "occurrences p (trim s) = occurrences p s"
proof -
  obtain w1 w2 where s: "s = w1 @ trim s @ w2"
    and w: "\<forall>c\<in>set w1. isWhiteSpace c" "\<forall>c\<in>set w2. isWhiteSpace c"
    using trim_decompose by blast
  have "occurrences p (w1 @ (trim s @ w2)) = occurrences p (trim s @ w2)"
    using w(1) assms by (intro occurrences_skip) auto
  moreover have "occurrences p (trim s @ w2) = occurrences p (trim s)"
    using w(2) assms by (intro occurrences_skip_end) auto
  ultimately show ?thesis using s by simp
qed

lemma heading_occurrences:
  assumes "startsWith t m" "\<forall>c\<in>set m. c \<notin> set p" "p \<noteq> []"
  shows "occurrences p (substring t (length m)) = occurrences p t"
proof -
  from assms(1) have "t = m @ drop (length m) t"
    by (auto simp: startsWith_def prefix_def)
  moreover have "occurrences p (m @ drop (length m) t) = occurrences p (drop (length m) t)"
    using assms(2,3) by (intro occurrences_skip) auto
  ultimately show ?thesis by (simp add: substring_def)
qed

lemma wsPlusThen_Some:
  "wsPlusThen cs = Some cap \<Longrightarrow> \<exists>w. cs = w @ cap \<and> (\<forall>c\<in>set w. isWhiteSpace c)"
proof (induction cs)
  case Nil
  then show ?case by simp
next
  case (Cons c cs)
  from Cons.prems have ws: "isWhiteSpace c" by (simp split: if_splits)
  show ?case
  proof (cases "wsPlusThen cs")
    case None
    with Cons.prems ws have "cs = cap"
      by (simp add: dotPlusEnd_def split: if_splits)
    with ws have "c # cs = [c] @ cap \<and> (\<forall>d\<in>set [c]. isWhiteSpace d)" by simp
    then show ?thesis by blast
  next
    case (Some cap')
    with Cons.prems ws have "cap' = cap" by simp
    with Cons.IH Some obtain w where "cs = w @ cap" "\<forall>c\<in>set w. isWhiteSpace c" by blast
    with ws have "c # cs = (c # w) @ cap \<and> (\<forall>d\<in>set (c # w). isWhiteSpace d)" by simp
    then show ?thesis by blast
  qed
qed

lemma listItem_occurrences:
  assumes "matchListItem t = Some [whole, cap]"
    and "\<forall>c\<in>set p. \<not> isWhiteSpace c" "STAR \<notin> set p" "DASH \<notin> set p" "p \<noteq> []"
  shows "occurrences p cap = occurrences p t"
proof -
  from assms(1) obtain c cs where t: "t = c # cs" "c = DASH \<or> c = STAR" "wsPlusThen cs = Some cap"
    by (auto simp: matchListItem_def split: list.splits if_splits option.splits)
  then obtain w where w: "cs = w @ cap" "\<forall>c\<in>set w. isWhiteSpace c"
    using wsPlusThen_Some by blast
  have "occurrences p ((c # w) @ cap) = occurrences p cap"
    using t(2) w(2) assms(2-5) by (intro occurrences_skip) auto
  with t w show ?thesis by simp
qed

lemma wrapped_occurrences:
  assumes "p = LT # q" "LT \<notin> set q" "GT \<notin> set (butlast p)"
    and "pre = LT # m1 @ [GT]" "occurrences p pre = 0"
    and "post = LT # m2 @ [GT]" "occurrences p post = 0"
  shows "occurrences p (pre @ x @ post) = occurrences p x"
proof -
  have "occurrences p ([] @ pre @ (x @ post)) = occurrences p [] + occurrences p (x @ post)"
    using assms(1-5) by (rule occurrences_tagged)
  moreover have "occurrences p (x @ post @ []) = occurrences p x + occurrences p []"
    using assms(1-3,6,7) by (rule occurrences_tagged)
  ultimately show ?thesis by simp
qed

lemma wrapper_shapes:
  "js ''<h3 class=\"text-lg font-semibold mt-4 mb-2\">'' =
     LT # butlast (tl (js ''<h3 class=\"text-lg font-semibold mt-4 mb-2\">'')) @ [GT]"
  "js ''</h3>'' = LT # butlast (tl (js ''</h3>'')) @ [GT]"
  "js ''<h2 class=\"text-xl font-bold mt-6 mb-3\">'' =
     LT # butlast (tl (js ''<h2 class=\"text-xl font-bold mt-6 mb-3\">'')) @ [GT]"
  "js ''</h2>'' = LT # butlast (tl (js ''</h2>'')) @ [GT]"
  "js ''<h1 class=\"text-2xl font-bold mt-8 mb-4\">'' =
     LT # butlast (tl (js ''<h1 class=\"text-2xl font-bold mt-8 mb-4\">'')) @ [GT]"
  "js ''</h1>'' = LT # butlast (tl (js ''</h1>'')) @ [GT]"
  "js ''<li>'' = LT # butlast (tl (js ''<li>'')) @ [GT]"
  "js ''</li>'' = LT # butlast (tl (js ''</li>'')) @ [GT]"
  "js ''<p class=\"mb-2\">'' = LT # butlast (tl (js ''<p class=\"mb-2\">'')) @ [GT]"
  "js ''</p>'' = LT # butlast (tl (js ''</p>'')) @ [GT]"
  "js ''<strong>'' = LT # butlast (tl (js ''<strong>'')) @ [GT]"
  "js ''</strong>'' = LT # butlast (tl (js ''</strong>'')) @ [GT]"
  "js ''<em>'' = LT # butlast (tl (js ''<em>'')) @ [GT]"
  "js ''</em>'' = LT # butlast (tl (js ''</em>'')) @ [GT]"
  by code_simp+

lemma wrapper_occurrences:
  assumes "p = js ''<ul'' \<or> p = js ''</ul>''"
  shows "occurrences p (js ''<h3 class=\"text-lg font-semibold mt-4 mb-2\">'') = 0"
    "occurrences p (js ''</h3>'') = 0"
    "occurrences p (js ''<h2 class=\"text-xl font-bold mt-6 mb-3\">'') = 0"
    "occurrences p (js ''</h2>'') = 0"
    "occurrences p (js ''<h1 class=\"text-2xl font-bold mt-8 mb-4\">'') = 0"
    "occurrences p (js ''</h1>'') = 0"
    "occurrences p (js ''<li>'') = 0"
    "occurrences p (js ''</li>'') = 0"
    "occurrences p (js ''<p class=\"mb-2\">'') = 0"
    "occurrences p (js ''</p>'') = 0"
    "occurrences p (js ''<strong>'') = 0"
    "occurrences p (js ''</strong>'') = 0"
    "occurrences p (js ''<em>'') = 0"
    "occurrences p (js ''</em>'') = 0"
    "occurrences p br = 0"
proof -
  have a: "occurrences (js ''<ul'') (js ''<h3 class=\"text-lg font-semibold mt-4 mb-2\">'') = 0"
    "occurrences (js ''<ul'') (js ''</h3>'') = 0"
    "occurrences (js ''<ul'') (js ''<h2 class=\"text-xl font-bold mt-6 mb-3\">'') = 0"
    "occurrences (js ''<ul'') (js ''</h2>'') = 0"
    "occurrences (js ''<ul'') (js ''<h1 class=\"text-2xl font-bold mt-8 mb-4\">'') = 0"
    "occurrences (js ''<ul'') (js ''</h1>'') = 0"
    "occurrences (js ''<ul'') (js ''<li>'') = 0"
    "occurrences (js ''<ul'') (js ''</li>'') = 0"
    "occurrences (js ''<ul'') (js ''<p class=\"mb-2\">'') = 0"
    "occurrences (js ''<ul'') (js ''</p>'') = 0"
    "occurrences (js ''<ul'') (js ''<strong>'') = 0"
    "occurrences (js ''<ul'') (js ''</strong>'') = 0"
    "occurrences (js ''<ul'') (js ''<em>'') = 0"
    "occurrences (js ''<ul'') (js ''</em>'') = 0"
    "occurrences (js ''<ul'') br = 0"
    by code_simp+
  have b: "occurrences (js ''</ul>'') (js ''<h3 class=\"text-lg font-semibold mt-4 mb-2\">'') = 0"
    "occurrences (js ''</ul>'') (js ''</h3>'') = 0"
    "occurrences (js ''</ul>'') (js ''<h2 class=\"text-xl font-bold mt-6 mb-3\">'') = 0"
    "occurrences (js ''</ul>'') (js ''</h2>'') = 0"
    "occurrences (js ''</ul>'') (js ''<h1 class=\"text-2xl font-bold mt-8 mb-4\">'') = 0"
    "occurrences (js ''</ul>'') (js ''</h1>'') = 0"
    "occurrences (js ''</ul>'') (js ''<li>'') = 0"
    "occurrences (js ''</ul>'') (js ''</li>'') = 0"
    "occurrences (js ''</ul>'') (js ''<p class=\"mb-2\">'') = 0"
    "occurrences (js ''</ul>'') (js ''</p>'') = 0"
    "occurrences (js ''</ul>'') (js ''<strong>'') = 0"
    "occurrences (js ''</ul>'') (js ''</strong>'') = 0"
    "occurrences (js ''</ul>'') (js ''<em>'') = 0"
    "occurrences (js ''</ul>'') (js ''</em>'') = 0"
    "occurrences (js ''</ul>'') br = 0"
    by code_simp+
  from assms a b
  show "occurrences p (js ''<h3 class=\"text-lg font-semibold mt-4 mb-2\">'') = 0"
    "occurrences p (js ''</h3>'') = 0"
    "occurrences p (js ''<h2 class=\"text-xl font-bold mt-6 mb-3\">'') = 0"
    "occurrences p (js ''</h2>'') = 0"
    "occurrences p (js ''<h1 class=\"text-2xl font-bold mt-8 mb-4\">'') = 0"
    "occurrences p (js ''</h1>'') = 0"
    "occurrences p (js ''<li>'') = 0"
    "occurrences p (js ''</li>'') = 0"
    "occurrences p (js ''<p class=\"mb-2\">'') = 0"
    "occurrences p (js ''</p>'') = 0"
    "occurrences p (js ''<strong>'') = 0"
    "occurrences p (js ''</strong>'') = 0"
    "occurrences p (js ''<em>'') = 0"
    "occurrences p (js ''</em>'') = 0"
    "occurrences p br = 0"
    by blast+
qed

lemma fragment_occurrences:
  assumes "p = js ''<ul'' \<or> p = js ''</ul>''"
  shows "occurrences p (h3 x) = occurrences p x"
    "occurrences p (h2 x) = occurrences p x"
    "occurrences p (h1 x) = occurrences p x"
    "occurrences p (li x) = occurrences p x"
    "occurrences p (para x) = occurrences p x"
proof -
  obtain q where q: "p = LT # q" "LT \<notin> set q" using listTag_props(1) [OF assms] by blast
  note g = listTag_props(2) [OF assms]
  note w = wrapper_occurrences [OF assms]
  show "occurrences p (h3 x) = occurrences p x"
    unfolding h3_def
    by (rule wrapped_occurrences [OF q g wrapper_shapes(1) w(1) wrapper_shapes(2) w(2)])
  show "occurrences p (h2 x) = occurrences p x"
    unfolding h2_def
    by (rule wrapped_occurrences [OF q g wrapper_shapes(3) w(3) wrapper_shapes(4) w(4)])
  show "occurrences p (h1 x) = occurrences p x"
    unfolding h1_def
    by (rule wrapped_occurrences [OF q g wrapper_shapes(5) w(5) wrapper_shapes(6) w(6)])
  show "occurrences p (li x) = occurrences p x"
    unfolding li_def
    by (rule wrapped_occurrences [OF q g wrapper_shapes(7) w(7) wrapper_shapes(8) w(8)])
  show "occurrences p (para x) = occurrences p x"
    unfolding para_def
    by (rule wrapped_occurrences [OF q g wrapper_shapes(9) w(9) wrapper_shapes(10) w(10)])
qed

lemma inline_occurrences:
  assumes "p = js ''<ul'' \<or> p = js ''</ul>''"
  shows "occurrences p (inlineListItem x) = occurrences p x"
    "occurrences p (inlineParagraph x) = occurrences p x"
proof -
  obtain q where q: "p = LT # q" "LT \<notin> set q" "STAR \<notin> set q"
    using listTag_props(1) [OF assms] by blast
  note g = listTag_props(2) [OF assms]
  note w = wrapper_occurrences [OF assms]
  have strong: "occurrences p (replaceAll r (js ''<strong>'') (js ''</strong>'') s) = occurrences p s" for r s
    by (rule replaceAll_occurrences [OF q(1,2) g q(3) wrapper_shapes(11) w(11) wrapper_shapes(12) w(12)])
  have em: "occurrences p (replaceAll r (js ''<em>'') (js ''</em>'') s) = occurrences p s" for r s
    by (rule replaceAll_occurrences [OF q(1,2) g q(3) wrapper_shapes(13) w(13) wrapper_shapes(14) w(14)])
  show "occurrences p (inlineListItem x) = occurrences p x"
    by (simp add: inlineListItem_def strong em)
  show "occurrences p (inlineParagraph x) = occurrences p x"
    by (simp add: inlineParagraph_def strong em)
qed

lemma fragment_heads:
  "\<exists>f. h3 x = LT # f" "\<exists>f. h2 x = LT # f" "\<exists>f. h1 x = LT # f" "\<exists>f. li x = LT # f"
  "\<exists>f. para x = LT # f" "\<exists>f. br = LT # f" "\<exists>f. ulOpen = LT # f" "\<exists>f. ulClose = LT # f"
  by (simp_all add: h3_def h2_def h1_def li_def para_def br_def ulOpen_def ulClose_def js_def LT_def)

lemma join_snoc_occurrences:
  assumes "p = js ''<ul'' \<or> p = js ''</ul>''" "\<exists>f'. f = LT # f'"
  shows "occurrences p (join (res @ [f])) = occurrences p (join res) + occurrences p f"
proof -
  obtain q where q: "p = LT # q" "LT \<notin> set q" using listTag_props(1) [OF assms(1)] by blast
  from assms(2) obtain f' where f: "f = LT # f'" by blast
  have "occurrences p (concat res @ LT # f') = occurrences p (concat res) + occurrences p (LT # f')"
    using q by (rule occurrences_before)
  with f show ?thesis by (simp add: join_def)
qed

lemma listTag_values:
  "occurrences (js ''<ul'') ulOpen = 1" "occurrences (js ''</ul>'') ulOpen = 0"
  "occurrences (js ''<ul'') ulClose = 0" "occurrences (js ''</ul>'') ulClose = 1"
  by code_simp+

lemma closeList_occurrences:
  assumes "p = js ''<ul'' \<or> p = js ''</ul>''"
  shows "occurrences p (join (closeList b res)) =
     occurrences p (join res) + (if b then occurrences p ulClose else 0)"
  by (simp add: closeList_def join_snoc_occurrences [OF assms fragment_heads(8)])

lemma iteration_occurrences:
  assumes p: "p = js ''<ul'' \<or> p = js ''</ul>''"
    and i: "i < length lines"
    and it: "iteration lines i (b, res) = Inr (b', res')"
  shows "occurrences p (join res') =
     occurrences p (join res) + occurrences p (lines ! i)
       + (if b' \<and> \<not> b then occurrences p ulOpen else 0)
       + (if b \<and> \<not> b' then occurrences p ulClose else 0)"
proof -
  let ?t = "trim (lines ! i)"
  note props = listTag_props [OF p]
  have t: "occurrences p ?t = occurrences p (lines ! i)"
    using props(4,3) by (rule trim_occurrences)
  have nonlist: "occurrences p (join (closeList b res @ [f])) =
      occurrences p (join res) + occurrences p (lines ! i)
        + (if b then occurrences p ulClose else 0)"
    if "\<exists>f'. f = LT # f'" "occurrences p f = occurrences p ?t" for f
    using that t by (simp add: join_snoc_occurrences [OF p] closeList_occurrences [OF p])
  consider (h3) "startsWith ?t (js ''### '')"
    | (h2) "startsWith ?t (js ''## '')"
    | (h1) "startsWith ?t (js ''# '')"
    | (item) cap where "matchListItem ?t = Some [?t, cap]"
    | (para) "\<not> startsWith ?t (js ''### '')" "\<not> startsWith ?t (js ''## '')"
        "\<not> startsWith ?t (js ''# '')" "matchListItem ?t = None" "?t \<noteq> []"
    | (blank) "?t = []"
    using matchListItem_array [of ?t] by (cases "matchListItem ?t") auto
  then show ?thesis
  proof cases
    case h3
    have "occurrences p (substring ?t (length (js ''### ''))) = occurrences p ?t"
      using h3 props(8,3) by (rule heading_occurrences)
    moreover have "length (js ''### '') = 4" by (simp add: js_def)
    ultimately have "occurrences p (h3 (substring ?t 4)) = occurrences p ?t"
      by (simp only: fragment_occurrences [OF p])
    with it iteration_h3 [OF i h3, of b res] nonlist [OF fragment_heads(1)]
    show ?thesis by auto
  next
    case h2
    have "\<forall>c\<in>set (js ''## ''). c \<notin> set p" using props(8) by (simp add: js_def)
    with h2 props(3) have "occurrences p (substring ?t (length (js ''## ''))) = occurrences p ?t"
      by (intro heading_occurrences)
    moreover have "length (js ''## '') = 3" by (simp add: js_def)
    ultimately have "occurrences p (h2 (substring ?t 3)) = occurrences p ?t"
      by (simp only: fragment_occurrences [OF p])
    with it iteration_h2 [OF i h2, of b res] nonlist [OF fragment_heads(2)]
    show ?thesis by auto
  next
    case h1
    have "\<forall>c\<in>set (js ''# ''). c \<notin> set p" using props(8) by (simp add: js_def)
    with h1 props(3) have "occurrences p (substring ?t (length (js ''# ''))) = occurrences p ?t"
      by (intro heading_occurrences)
    moreover have "length (js ''# '') = 2" by (simp add: js_def)
    ultimately have "occurrences p (h1 (substring ?t 2)) = occurrences p ?t"
      by (simp only: fragment_occurrences [OF p])
    with it iteration_h1 [OF i h1, of b res] nonlist [OF fragment_heads(3)]
    show ?thesis by auto
  next
    case item
    have "occurrences p cap = occurrences p ?t"
      using item props(4,5,6,3) by (rule listItem_occurrences)
    then have f: "occurrences p (li (inlineListItem cap)) = occurrences p (lines ! i)"
      using t by (simp add: fragment_occurrences [OF p] inline_occurrences [OF p])
    from it iteration_listItem [OF i item, of b res]
    have r: "b' = True" "res' = (if \<not> b then res @ [ulOpen] else res) @ [li (inlineListItem cap)]"
      by auto
    show ?thesis
      unfolding r using f
      by (simp add: join_snoc_occurrences [OF p fragment_heads(4)]
          join_snoc_occurrences [OF p fragment_heads(7)])
  next
    case para
    have "occurrences p (para (inlineParagraph ?t)) = occurrences p ?t"
      by (simp add: fragment_occurrences [OF p] inline_occurrences [OF p])
    with it iteration_paragraph [OF i para, of b res] nonlist [OF fragment_heads(5)]
    show ?thesis by auto
  next
    case blank
    with t have z: "occurrences p (lines ! i) = 0" by simp
    from it iteration_blank [OF i blank, of b res]
    have r: "b' = False" "res' = closeList b res @ (if i < length lines - 1 then [br] else [])"
      by auto
    show ?thesis
      unfolding r using z
      by (simp add: join_snoc_occurrences [OF p fragment_heads(6)] closeList_occurrences [OF p]
          wrapper_occurrences(15) [OF p])
  qed
qed

lemma loop_occurrences:
  "loop lines i st = Inr st' \<Longrightarrow>
   occurrences (js ''<ul'') (join (snd st')) + occurrences (js ''</ul>'') (join (snd st))
     + (if fst st then 1 else 0) + sum_list (map (occurrences (js ''</ul>'')) (drop i lines))
   = occurrences (js ''</ul>'') (join (snd st')) + occurrences (js ''<ul'') (join (snd st))
     + (if fst st' then 1 else 0) + sum_list (map (occurrences (js ''<ul'')) (drop i lines))"
proof (induction lines i st rule: loop.induct)
  case (1 lines i st)
  show ?case
  proof (cases "i < length lines")
    case True
    then obtain st1 where st1: "iteration lines i st = Inr st1"
      using iteration_Inr by blast
    then have it: "iteration lines i (fst st, snd st) = Inr (fst st1, snd st1)" by simp
    have l: "loop lines (i + 1) st1 = Inr st'"
      using "1.prems"(1) True st1 by (simp add: loop.simps [of lines i])
    note ih = "1.IH" [OF True st1 l]
    note o = iteration_occurrences [OF _ True it, of "js ''<ul''", simplified listTag_values]
    note c = iteration_occurrences [OF _ True it, of "js ''</ul>''", simplified listTag_values]
    have d: "drop i lines = lines ! i # drop (i + 1) lines"
      using True by (simp add: Cons_nth_drop_Suc)
    show ?thesis
      using ih o c unfolding d by (auto split: if_splits)
  next
    case False
    with "1.prems" show ?thesis by (simp add: loop.simps [of lines i])
  qed
qed

lemma splitOn_occurrences:
  "sep \<notin> set p \<Longrightarrow> p \<noteq> [] \<Longrightarrow>
   sum_list (map (occurrences p) (splitOn sep cur s)) = occurrences p (cur @ s)"
proof (induction s arbitrary: cur)
  case Nil
  then show ?case by simp
next
  case (Cons c s)
  show ?case
  proof (cases "c = sep")
    case True
    with Cons show ?thesis by (simp add: occurrences_split_at)
  next
    case False
    with Cons.IH [OF Cons.prems, of "cur @ [c]"] show ?thesis by simp
  qed
qed

lemma fragments_balanced:
  "\<exists>frs. renderFragments markdown = Inr frs \<and> markdownToHtml markdown = Inr (join frs) \<and>
     count_list frs ulOpen = count_list frs ulClose"
proof -
  obtain inList result where l: "loop (split markdown NL) 0 (False, []) = Inr (inList, result)"
    using loop_Inr by (metis surj_pair)
  from loop_balance [OF l]
  have "count_list result ulOpen = count_list result ulClose + (if inList then 1 else 0)"
    by simp
  then have "count_list (closeList inList result) ulOpen =
      count_list (closeList inList result) ulClose"
    by (simp add: closeList_def fragment_neq)
  with l show ?thesis
    by (simp add: renderFragments_def markdownToHtml_def)
qed

lemma output_occurrences:
  "\<exists>frs. renderFragments markdown = Inr frs \<and> markdownToHtml markdown = Inr (join frs) \<and>
     occurrences (js ''<ul'') (join frs) + occurrences (js ''</ul>'') markdown =
     occurrences (js ''</ul>'') (join frs) + occurrences (js ''<ul'') markdown"
proof -
  let ?lines = "split markdown NL"
  obtain inList result where l: "loop ?lines 0 (False, []) = Inr (inList, result)"
    using loop_Inr by (metis surj_pair)
  have sO: "sum_list (map (occurrences (js ''<ul'')) ?lines) = occurrences (js ''<ul'') markdown"
    using splitOn_occurrences [of NL "js ''<ul''" "[]" markdown] listTag_props(7,3) [of "js ''<ul''"]
    by (simp add: split_def)
  have sC: "sum_list (map (occurrences (js ''</ul>'')) ?lines) = occurrences (js ''</ul>'') markdown"
    using splitOn_occurrences [of NL "js ''</ul>''" "[]" markdown] listTag_props(7,3) [of "js ''</ul>''"]
    by (simp add: split_def)
  from loop_occurrences [OF l] sO sC
  have "occurrences (js ''<ul'') (join result) + occurrences (js ''</ul>'') markdown
      = occurrences (js ''</ul>'') (join result) + (if inList then 1 else 0)
        + occurrences (js ''<ul'') markdown"
    by (simp add: join_def)
  moreover have "occurrences (js ''<ul'') (join (closeList inList result)) =
      occurrences (js ''<ul'') (join result)"
    by (simp add: closeList_occurrences listTag_values)
  moreover have "occurrences (js ''</ul>'') (join (closeList inList result)) =
      occurrences (js ''</ul>'') (join result) + (if inList then 1 else 0)"
    by (simp add: closeList_occurrences listTag_values)
  ultimately show ?thesis
    using l by (simp add: renderFragments_def markdownToHtml_def)
qed

lemma fragments_balance_occurrences:
  "\<exists>frs. renderFragments markdown = Inr frs \<and> markdownToHtml markdown = Inr (join frs) \<and>
     count_list frs ulOpen = count_list frs ulClose \<and>
     occurrences (js ''<ul'') (join frs) + occurrences (js ''</ul>'') markdown =
     occurrences (js ''</ul>'') (join frs) + occurrences (js ''<ul'') markdown \<and>
     (occurrences (js ''<ul'') markdown = occurrences (js ''</ul>'') markdown \<longrightarrow>
      occurrences (js ''<ul'') (join frs) = occurrences (js ''</ul>'') (join frs))"
proof -
  obtain frs where a: "renderFragments markdown = Inr frs" "markdownToHtml markdown = Inr (join frs)"
    "count_list frs ulOpen = count_list frs ulClose"
    using fragments_balanced by blast
  obtain frs' where b: "renderFragments markdown = Inr frs'"
    "occurrences (js ''<ul'') (join frs') + occurrences (js ''</ul>'') markdown =
     occurrences (js ''</ul>'') (join frs') + occurrences (js ''<ul'') markdown"
    using output_occurrences by blast
  from a(1) b(1) have "frs' = frs" by simp
  with a b(2) show ?thesis by auto
qed

text \<open>
  Claim C1 (amended). For every input the renderer pushes as many opening \<open><ul>\<close> tags
  as closing \<open></ul>\<close> tags, also when the document ends inside a list. The text of the
  input is copied into the output unescaped, and nothing else adds or removes an
  occurrence of \<open><ul\<close> or \<open></ul>\<close>: the output has as many more occurrences of \<open><ul\<close>
  than of \<open></ul>\<close> as the input has. So the two counts agree in the output whenever
  they agree in the input, in particular when the input holds neither text.
\<close>

theorem list_balance:
  "\<exists>frs. renderFragments markdown = Inr frs \<and> markdownToHtml markdown = Inr (concat frs) \<and>
     count_list frs (js ''<ul class=\"list-disc list-inside space-y-1 my-2 ml-4\">'') = count_list frs (js ''</ul>'') \<and>
     occurrences (js ''<ul'') (concat frs) + occurrences (js ''</ul>'') markdown =
     occurrences (js ''</ul>'') (concat frs) + occurrences (js ''<ul'') markdown \<and>
     (occurrences (js ''<ul'') markdown = occurrences (js ''</ul>'') markdown \<longrightarrow>
      occurrences (js ''<ul'') (concat frs) = occurrences (js ''</ul>'') (concat frs))"
  using fragments_balance_occurrences [of markdown, unfolded ulOpen_def ulClose_def join_def] .

theorem list_balance_witness:
  "markdownToHtml (js ''- a'' @ [NL] @ js ''- b'') =
     Inr (js ''<ul class=\"list-disc list-inside space-y-1 my-2 ml-4\"><li>a</li><li>b</li></ul>'') \<and>
   occurrences (js ''<ul'')
     (js ''<ul class=\"list-disc list-inside space-y-1 my-2 ml-4\"><li>a</li><li>b</li></ul>'') = 1 \<and>
   occurrences (js ''</ul>'')
     (js ''<ul class=\"list-disc list-inside space-y-1 my-2 ml-4\"><li>a</li><li>b</li></ul>'') = 1"
proof -
  let ?md = "js ''- a'' @ [NL] @ js ''- b''"
  let ?frs = "[js ''<ul class=\"list-disc list-inside space-y-1 my-2 ml-4\">'', js ''<li>a</li>'', js ''<li>b</li>'', js ''</ul>'']"
  let ?out = "js ''<ul class=\"list-disc list-inside space-y-1 my-2 ml-4\"><li>a</li><li>b</li></ul>''"
  have v: "renderFragments ?md = Inr ?frs" by code_simp
  have c: "concat ?frs = ?out" by code_simp
  have i: "occurrences (js ''<ul'') ?md = 0" "occurrences (js ''</ul>'') ?md = 0" by code_simp+
  have o: "occurrences (js ''<ul'') ?out = 1" by code_simp
  from list_balance [of ?md] v i
  have "markdownToHtml ?md = Inr (concat ?frs)"
    and "occurrences (js ''<ul'') (concat ?frs) = occurrences (js ''</ul>'') (concat ?frs)"
    by auto
  with o show ?thesis unfolding c by simp
qed

text \<open>
  The claim as stated counts the occurrences of \<open><ul\<close> and \<open></ul>\<close> in the output. The
  text of the input is copied without escaping, so the paragraph \<open><ul>\<close> gives an output
  with one occurrence of \<open><ul\<close> and none of \<open></ul>\<close>.
\<close>

theorem list_balance_counterexample:
  "markdownToHtml (js ''<ul>'') = Inr (js ''<p class=\"mb-2\"><ul></p>'') \<and>
   occurrences (js ''<ul'') (js ''<p class=\"mb-2\"><ul></p>'') = 1 \<and>
   occurrences (js ''</ul>'') (js ''<p class=\"mb-2\"><ul></p>'') = 0"
  by code_simp

end
